theory Spec2Isabelle
  imports Complex_Main "HOL-Library.Multiset" "HOL-Library.FSet" "HOL-Library.Word"
begin

section \<open>Errors and results\<close>

text \<open>
  Exceptions and undefined behaviour of the C++ code are values. Dereferencing a null
  pointer and reading a \<^verbatim>\<open>std::vector\<close> out of range are undefined behaviour in C++;
  the model stops there with an error of its own, so that no theorem can be proved about
  what happens afterwards.
\<close>

datatype error =
    NullPointerDereference
  | IndexOutOfBounds
  | GroupNotFoundException nat
  | DimensionException

type_synonym 'a result = "error + 'a"

definition bindE :: "'a result \<Rightarrow> ('a \<Rightarrow> 'b result) \<Rightarrow> 'b result" where
  "bindE m f = (case m of Inl e \<Rightarrow> Inl e | Inr x \<Rightarrow> f x)"

text \<open>A loop whose body may fail: the first error ends it, as an exception would.\<close>

fun foldE :: "('a \<Rightarrow> 's \<Rightarrow> 's result) \<Rightarrow> 'a list \<Rightarrow> 's \<Rightarrow> 's result" where
  "foldE f [] s = Inr s"
| "foldE f (x # xs) s = bindE (f x s) (foldE f xs)"

text \<open>
  Reading a vector at an index (\<^verbatim>\<open>v[i]\<close>, or an accessor that checks its index), and
  following a pointer that may be null (\<^verbatim>\<open>p->\<close>, \<^verbatim>\<open>*p\<close>).
\<close>

definition nthE :: "'a list \<Rightarrow> nat \<Rightarrow> 'a result" where
  "nthE xs i = (if i < length xs then Inr (xs ! i) else Inl IndexOutOfBounds)"

definition deref :: "'a option \<Rightarrow> 'a result" where
  "deref p = (case p of None \<Rightarrow> Inl NullPointerDereference | Some x \<Rightarrow> Inr x)"

section \<open>\<^verbatim>\<open>TextTools::toString\<close> on an unsigned integer\<close>

text \<open>
  \<^verbatim>\<open>TextTools::toString\<close> belongs to the Bio++ core library; on an unsigned integer it
  writes the value through a \<^verbatim>\<open>std::ostringstream\<close>, that is, in decimal without
  leading zeros.
\<close>

definition digit_char :: "nat \<Rightarrow> char" where
  "digit_char d = char_of (48 + d)"

function toString :: "nat \<Rightarrow> string" where
  "toString n = (if n < 10 then [digit_char n] else toString (n div 10) @ [digit_char (n mod 10)])"
  by pat_completeness auto
termination
  by (relation "measure id") auto

declare toString.simps [simp del]



section \<open>DataSet (src/Pop/DataSet.cpp)\<close>

text \<open>
  Modelled from the spec: the class \<^verbatim>\<open>Group\<close> (Group.h is not among the sources): an
  integer id, an optional display name (empty when never set) and the individuals it
  owns. Group ids are \<^verbatim>\<open>unsigned int\<close>; the functions below only compare them and print
  them, so they are natural numbers here. The type of the individuals is a parameter.
\<close>

record 'ind Group =
  group_id :: nat
  group_name :: string
  group_individuals :: "'ind list"

definition getGroupId_G :: "'ind Group \<Rightarrow> nat" where
  "getGroupId_G g = group_id g"

definition getGroupName_G :: "'ind Group \<Rightarrow> string" where
  "getGroupName_G g = group_name g"

text \<open>
  The four members of \<^verbatim>\<open>DataSet\<close>. \<^verbatim>\<open>analyzedLoci_\<close> and \<^verbatim>\<open>analyzedSequences_\<close> are
  pointers that may be null (\<open>None\<close>); \<^verbatim>\<open>localities_\<close> and \<^verbatim>\<open>groups_\<close> are vectors of
  pointers to objects the DataSet owns, here the lists of the objects themselves. The
  classes \<^verbatim>\<open>AnalyzedLoci\<close>, \<^verbatim>\<open>AnalyzedSequences\<close> and \<^verbatim>\<open>Locality\<close> are not among the
  sources and are type parameters; \<^verbatim>\<open>new T(*p)\<close> makes a copy equal to the original.
\<close>

record ('al, 'as, 'loc, 'ind) DataSet =
  analyzedLoci :: "'al option"
  analyzedSequences :: "'as option"
  localities :: "'loc list"
  groups :: "'ind Group list"

text \<open>\<^verbatim>\<open>DataSet::DataSet()\<close>\<close>

definition DataSet_new :: "('al, 'as, 'loc, 'ind) DataSet" where
  "DataSet_new = \<lparr>analyzedLoci = None, analyzedSequences = None, localities = [], groups = []\<rparr>"

text \<open>
  The copy constructor and the assignment operator receive the source by reference, and
  nothing keeps the source of an assignment from being the target itself. Their loops
  read \<^verbatim>\<open>ds.localities_.size()\<close> and \<^verbatim>\<open>ds.groups_.size()\<close> again before every turn
  while they push onto \<^verbatim>\<open>localities_\<close> and \<^verbatim>\<open>groups_\<close>, which are the same vectors when
  \<^verbatim>\<open>&ds == this\<close>. So data sets live in a store, at addresses, and the two functions take
  the addresses of \<open>this\<close> and of \<open>ds\<close> and the store, and give the store they leave.
\<close>

type_synonym addr = nat

type_synonym ('al, 'as, 'loc, 'ind) store = "addr \<Rightarrow> ('al, 'as, 'loc, 'ind) DataSet"

text \<open>
  \<^verbatim>\<open>for (unsigned int i = 0 ; i < ds.localities_.size() ; i++)\<close>
  \<^verbatim>\<open>  localities_.push_back(new Locality<double>(*(ds.localities_[i])));\<close>

  The counter is an \<^verbatim>\<open>unsigned int\<close>, 32 bits wide, compared with the \<^verbatim>\<open>size_t\<close> that
  \<^verbatim>\<open>size()\<close> returns: after \<open>2 ^ 32 - 1\<close> it is 0 again. The size and the element are
  read in the store of the turn, the copy is pushed at the back of the vector of
  \<open>this\<close>. A loop that never ends has the value \<open>None\<close>: the store of the model has no
  bound, and where the memory of a machine has one, the loop ends in a failed
  allocation and the call does not return normally either.
\<close>

partial_function (option) push_localities ::
  "addr \<Rightarrow> addr \<Rightarrow> 32 word \<Rightarrow> ('al, 'as, 'loc, 'ind) store
     \<Rightarrow> ('al, 'as, 'loc, 'ind) store option" where
  "push_localities this ds i h =
     (if unat i < length (localities (h ds))
      then push_localities this ds (i + 1)
             (h(this := (h this)\<lparr>localities := localities (h this) @ [localities (h ds) ! unat i]\<rparr>))
      else Some h)"

text \<open>
  \<^verbatim>\<open>for (unsigned int i = 0 ; i < ds.groups_.size() ; i++)\<close>
  \<^verbatim>\<open>  groups_.push_back(new Group(*(ds.groups_[i])));\<close>
\<close>

partial_function (option) push_groups ::
  "addr \<Rightarrow> addr \<Rightarrow> 32 word \<Rightarrow> ('al, 'as, 'loc, 'ind) store
     \<Rightarrow> ('al, 'as, 'loc, 'ind) store option" where
  "push_groups this ds i h =
     (if unat i < length (groups (h ds))
      then push_groups this ds (i + 1)
             (h(this := (h this)\<lparr>groups := groups (h this) @ [groups (h ds) ! unat i]\<rparr>))
      else Some h)"

text \<open>
  The four statements shared by the copy constructor and the assignment operator, run
  on the members \<open>this\<close> has at that moment: the two pointers are overwritten when the
  source's are not null, and each loop runs when the source's vector is not empty.
\<close>

definition copy_members ::
  "addr \<Rightarrow> addr \<Rightarrow> ('al, 'as, 'loc, 'ind) store \<Rightarrow> ('al, 'as, 'loc, 'ind) store option" where
  "copy_members this ds h =
     (let h = (if analyzedLoci (h ds) \<noteq> None
               then h(this := (h this)\<lparr>analyzedLoci := analyzedLoci (h ds)\<rparr>) else h);
          h = (if analyzedSequences (h ds) \<noteq> None
               then h(this := (h this)\<lparr>analyzedSequences := analyzedSequences (h ds)\<rparr>) else h)
      in Option.bind
           (if length (localities (h ds)) \<noteq> 0 then push_localities this ds 0 h else Some h)
           (\<lambda>h. if length (groups (h ds)) \<noteq> 0 then push_groups this ds 0 h else Some h))"

text \<open>
  \<^verbatim>\<open>DataSet::DataSet(const DataSet& ds)\<close>: the initialiser list empties every member of
  the object under construction, at the address \<open>this\<close>, first.
\<close>

definition DataSet_copy ::
  "addr \<Rightarrow> addr \<Rightarrow> ('al, 'as, 'loc, 'ind) store \<Rightarrow> ('al, 'as, 'loc, 'ind) store option" where
  "DataSet_copy this ds h = copy_members this ds (h(this := DataSet_new))"

text \<open>\<^verbatim>\<open>DataSet::operator=(const DataSet& ds)\<close>: the same statements, on the current members.\<close>

definition DataSet_assign ::
  "addr \<Rightarrow> addr \<Rightarrow> ('al, 'as, 'loc, 'ind) store \<Rightarrow> ('al, 'as, 'loc, 'ind) store option" where
  "DataSet_assign this ds h = copy_members this ds h"

text \<open>
  \<^verbatim>\<open>DataSet::getGroupById\<close>: the first group of \<^verbatim>\<open>groups_\<close> with that id, or \<^verbatim>\<open>NULL\<close>.
\<close>

fun DataSet_getGroupById_loop :: "'ind Group list \<Rightarrow> nat \<Rightarrow> 'ind Group option" where
  "DataSet_getGroupById_loop [] gid = None"
| "DataSet_getGroupById_loop (g # gs) gid =
     (if gid = getGroupId_G g then Some g else DataSet_getGroupById_loop gs gid)"

definition DataSet_getGroupById :: "('al, 'as, 'loc, 'ind) DataSet \<Rightarrow> nat \<Rightarrow> 'ind Group option" where
  "DataSet_getGroupById ds gid = DataSet_getGroupById_loop (groups ds) gid"

text \<open>
  \<^verbatim>\<open>DataSet::getGroupName\<close>. The pointer returned by \<^verbatim>\<open>getGroupById\<close> is dereferenced
  without a test. Both branches of the \<^verbatim>\<open>if\<close> return, so the \<^verbatim>\<open>throw
  GroupNotFoundException\<close> that follows them in the source is never reached and has no
  branch here.
\<close>

definition DataSet_getGroupName :: "('al, 'as, 'loc, 'ind) DataSet \<Rightarrow> nat \<Rightarrow> string result" where
  "DataSet_getGroupName ds gid =
     (case DataSet_getGroupById ds gid of
        None \<Rightarrow> Inl NullPointerDereference
      | Some g \<Rightarrow>
          (let name = getGroupName_G g
           in if name \<noteq> [] then Inr name else Inr (toString gid)))"

text \<open>
  \<^verbatim>\<open>DataSet::setGroupName\<close> and \<^verbatim>\<open>DataSet::getGroupPosition\<close>, the sibling lookups: they
  scan \<^verbatim>\<open>groups_\<close> themselves and throw \<^verbatim>\<open>GroupNotFoundException\<close> after the loop.
\<close>

fun DataSet_setGroupName_loop :: "'ind Group list \<Rightarrow> nat \<Rightarrow> string \<Rightarrow> 'ind Group list option" where
  "DataSet_setGroupName_loop [] gid n = None"
| "DataSet_setGroupName_loop (g # gs) gid n =
     (if gid = getGroupId_G g then Some (g\<lparr>group_name := n\<rparr> # gs)
      else map_option ((#) g) (DataSet_setGroupName_loop gs gid n))"

definition DataSet_setGroupName ::
  "('al, 'as, 'loc, 'ind) DataSet \<Rightarrow> nat \<Rightarrow> string \<Rightarrow> ('al, 'as, 'loc, 'ind) DataSet result" where
  "DataSet_setGroupName ds gid n =
     (case DataSet_setGroupName_loop (groups ds) gid n of
        Some gs \<Rightarrow> Inr (ds\<lparr>groups := gs\<rparr>)
      | None \<Rightarrow> Inl (GroupNotFoundException gid))"

fun DataSet_getGroupPosition_loop :: "'ind Group list \<Rightarrow> nat \<Rightarrow> nat \<Rightarrow> nat option" where
  "DataSet_getGroupPosition_loop [] gid i = None"
| "DataSet_getGroupPosition_loop (g # gs) gid i =
     (if gid = getGroupId_G g then Some i else DataSet_getGroupPosition_loop gs gid (Suc i))"

definition DataSet_getGroupPosition :: "('al, 'as, 'loc, 'ind) DataSet \<Rightarrow> nat \<Rightarrow> nat result" where
  "DataSet_getGroupPosition ds gid =
     (case DataSet_getGroupPosition_loop (groups ds) gid 0 of
        Some i \<Rightarrow> Inr i
      | None \<Rightarrow> Inl (GroupNotFoundException gid))"

text \<open>Two data sets to run the functions on.\<close>

definition example_DataSet :: "(unit, unit, string, unit) DataSet" where
  "example_DataSet =
     \<lparr>analyzedLoci = None, analyzedSequences = None, localities = [''Lyon''],
      groups = [\<lparr>group_id = 1, group_name = [], group_individuals = []\<rparr>,
                \<lparr>group_id = 20, group_name = ''north'', group_individuals = [()]\<rparr>]\<rparr>"

definition example_source_DataSet :: "(unit, unit, string, unit) DataSet" where
  "example_source_DataSet =
     \<lparr>analyzedLoci = None, analyzedSequences = None, localities = [],
      groups = [\<lparr>group_id = 3, group_name = ''south'', group_individuals = []\<rparr>]\<rparr>"

text \<open>
  Two stores: in the first the two data sets above are at the addresses 0 and 1 and every
  other address holds an empty one; in the second the data set at 1 has \<open>2 ^ 32\<close> groups.
\<close>

definition example_store :: "(unit, unit, string, unit) store" where
  "example_store = (\<lambda>_. DataSet_new)(0 := example_DataSet, 1 := example_source_DataSet)"

definition crowded_store :: "(unit, unit, string, unit) store" where
  "crowded_store =
     (\<lambda>_. DataSet_new)
       (0 := example_DataSet,
        1 := example_source_DataSet
               \<lparr>groups := replicate (2 ^ 32)
                            \<lparr>group_id = 3, group_name = ''south'', group_individuals = []\<rparr>\<rparr>)"

section \<open>Genotypes and the genotype collection\<close>

text \<open>
  Modelled from the spec: the genotype classes (their headers are not among the
  sources). A genotype at one locus holds allele indices (\<^verbatim>\<open>getAlleleIndex()\<close> returns a
  \<^verbatim>\<open>std::vector<size_t>\<close>); the source builds \<^verbatim>\<open>MonoAlleleMonolocusGenotype\<close> from one
  allele and \<^verbatim>\<open>BiAlleleMonolocusGenotype\<close> from two and includes
  \<^verbatim>\<open>MultiAlleleMonolocusGenotype.h\<close>, whose genotypes hold any number of alleles. Allele
  indices and group ids are \<^verbatim>\<open>size_t\<close>; they are only copied and compared, so they are
  natural numbers here.
\<close>

datatype MonolocusGenotype =
    MonoAlleleMonolocusGenotype nat
  | BiAlleleMonolocusGenotype nat nat
  | MultiAlleleMonolocusGenotype "nat list"

fun getAlleleIndex :: "MonolocusGenotype \<Rightarrow> nat list" where
  "getAlleleIndex (MonoAlleleMonolocusGenotype a) = [a]"
| "getAlleleIndex (BiAlleleMonolocusGenotype a b) = [a, b]"
| "getAlleleIndex (MultiAlleleMonolocusGenotype al) = al"

text \<open>
  Modelled from the spec: \<^verbatim>\<open>MultilocusGenotype\<close> (its header is not among the sources),
  the vector of the per-locus genotypes of one record; a missing genotype is a null entry
  (\<open>None\<close>).
\<close>

type_synonym MultilocusGenotype = "MonolocusGenotype option list"

text \<open>
  Modelled from the spec: the constructor and the accessors of \<^verbatim>\<open>MultilocusGenotype\<close>
  that the operations call. The constructor makes \<open>locNum\<close> missing genotypes; reading or
  writing a locus beyond the vector is an error.
\<close>

definition MultilocusGenotype_new :: "nat \<Rightarrow> MultilocusGenotype" where
  "MultilocusGenotype_new locNum = replicate locNum None"

definition isMonolocusGenotypeMissing :: "MultilocusGenotype \<Rightarrow> nat \<Rightarrow> bool result" where
  "isMonolocusGenotypeMissing mg j = bindE (nthE mg j) (\<lambda>p. Inr (p = None))"

text \<open>
  Modelled from the spec: \<^verbatim>\<open>monolocusGenotype(j).clone()\<close>, the pointer to the copy of
  the genotype at locus \<open>j\<close>, null for a missing genotype.
\<close>

definition monolocusGenotype_clone :: "MultilocusGenotype \<Rightarrow> nat \<Rightarrow> MonolocusGenotype option result" where
  "monolocusGenotype_clone mg j = nthE mg j"

text \<open>
  Modelled from the spec: \<^verbatim>\<open>monolocusGenotype(j).getAlleleIndex()\<close>, the alleles of the
  genotype at locus \<open>j\<close>, and \<^verbatim>\<open>setMonolocusGenotype(j, gt)\<close>, which stores a copy of
  \<open>gt\<close> at locus \<open>j\<close>.
\<close>

definition alleleIndexAt :: "MultilocusGenotype \<Rightarrow> nat \<Rightarrow> nat list result" where
  "alleleIndexAt mg j = bindE (nthE mg j) (\<lambda>p. bindE (deref p) (\<lambda>gt. Inr (getAlleleIndex gt)))"

definition setMonolocusGenotype ::
  "MultilocusGenotype \<Rightarrow> nat \<Rightarrow> MonolocusGenotype \<Rightarrow> MultilocusGenotype result" where
  "setMonolocusGenotype mg j gt =
     (if j < length mg then Inr (mg[j := Some gt]) else Inl IndexOutOfBounds)"

text \<open>
  Modelled from the spec: \<^verbatim>\<open>PolymorphismMultiGContainer\<close> (its header and
  implementation are not among the sources). It holds the records, each a genotype
  vector with its group id, in order, and the table of the groups: group id to display
  name, empty when no name was set.
\<close>

record PolymorphismMultiGContainer =
  records :: "(MultilocusGenotype \<times> nat) list"
  groupsNames :: "nat \<rightharpoonup> string"

text \<open>
  Modelled from the spec: the constructor and the accessors of the container that the
  operations call. Records are read and their group id is written by position, and a
  position beyond the records is an error. The locus count is the length of the genotype
  vector of the first record. Adding a record puts it at the end and enters its group
  into the table when it is new.
\<close>

definition PMGC_new :: PolymorphismMultiGContainer where
  "PMGC_new = \<lparr>records = [], groupsNames = Map.empty\<rparr>"

definition size_PMGC :: "PolymorphismMultiGContainer \<Rightarrow> nat" where
  "size_PMGC c = length (records c)"

definition getGroupId :: "PolymorphismMultiGContainer \<Rightarrow> nat \<Rightarrow> nat result" where
  "getGroupId c i = bindE (nthE (records c) i) (\<lambda>r. Inr (snd r))"

definition multilocusGenotype :: "PolymorphismMultiGContainer \<Rightarrow> nat \<Rightarrow> MultilocusGenotype result" where
  "multilocusGenotype c i = bindE (nthE (records c) i) (\<lambda>r. Inr (fst r))"

definition setGroupId ::
  "PolymorphismMultiGContainer \<Rightarrow> nat \<Rightarrow> nat \<Rightarrow> PolymorphismMultiGContainer result" where
  "setGroupId c i gid =
     (if i < size_PMGC c then Inr (c\<lparr>records := (records c)[i := (fst (records c ! i), gid)]\<rparr>)
      else Inl IndexOutOfBounds)"

definition getNumberOfLoci :: "PolymorphismMultiGContainer \<Rightarrow> nat" where
  "getNumberOfLoci c = (case records c of [] \<Rightarrow> 0 | r # _ \<Rightarrow> length (fst r))"

definition addMultilocusGenotype ::
  "PolymorphismMultiGContainer \<Rightarrow> MultilocusGenotype \<Rightarrow> nat \<Rightarrow> PolymorphismMultiGContainer" where
  "addMultilocusGenotype c mg gid =
     c\<lparr>records := records c @ [(mg, gid)],
       groupsNames := (case groupsNames c gid of
                         None \<Rightarrow> (groupsNames c)(gid \<mapsto> [])
                       | Some _ \<Rightarrow> groupsNames c)\<rparr>"

text \<open>
  Modelled from the spec: the set of the group ids of the records, and the lookup and the
  setting of the name of a group. The lookup of an id that is not in the table fails; a
  group without name answers its id in decimal. Setting the name of an unknown group
  fails, as \<^verbatim>\<open>DataSet::setGroupName\<close> does.
\<close>

definition getAllGroupsIds :: "PolymorphismMultiGContainer \<Rightarrow> nat set" where
  "getAllGroupsIds c = snd ` set (records c)"

definition getGroupName :: "PolymorphismMultiGContainer \<Rightarrow> nat \<Rightarrow> string result" where
  "getGroupName c gid =
     (case groupsNames c gid of
        None \<Rightarrow> Inl (GroupNotFoundException gid)
      | Some n \<Rightarrow> Inr (if n = [] then toString gid else n))"

definition setGroupName ::
  "PolymorphismMultiGContainer \<Rightarrow> nat \<Rightarrow> string \<Rightarrow> PolymorphismMultiGContainer result" where
  "setGroupName c gid n =
     (case groupsNames c gid of
        None \<Rightarrow> Inl (GroupNotFoundException gid)
      | Some _ \<Rightarrow> Inr (c\<lparr>groupsNames := (groupsNames c)(gid \<mapsto> n)\<rparr>))"

text \<open>
  The precondition of the permutation operations: every record's genotype vector has the
  length of the collection's locus count. And the invariant of the groups: the group id
  of every record is in the table of the groups.
\<close>

definition wellFormed :: "PolymorphismMultiGContainer \<Rightarrow> bool" where
  "wellFormed c = list_all (\<lambda>r. length (fst r) = getNumberOfLoci c) (records c)"

definition groupsKnown :: "PolymorphismMultiGContainer \<Rightarrow> bool" where
  "groupsKnown c = list_all (\<lambda>r. groupsNames c (snd r) \<noteq> None) (records c)"

section \<open>The shuffle primitive\<close>

text \<open>
  Modelled from the spec: random-number generation is an injected uniform-shuffle
  primitive. \<^verbatim>\<open>std::shuffle\<close> with \<^verbatim>\<open>RandomTools::DEFAULT_GENERATOR\<close> rearranges a vector
  into a permutation that the state of the generator decides, and advances the
  generator. The state is the list of the choices still to come, one number per call;
  the number picks the permutation by successive insertion positions, so that every
  permutation of the vector is picked by some number, and \<open>0\<close> picks the identity. A
  generator that has run out of choices leaves vectors as they are.
\<close>

type_synonym rng = "nat list"

fun permute_by :: "nat \<Rightarrow> 'a list \<Rightarrow> 'a list" where
  "permute_by s [] = []"
| "permute_by s (x # xs) =
     (let n = Suc (length xs); p = permute_by (s div n) xs; i = s mod n
      in take i p @ x # drop i p)"

definition shuffle :: "'a list \<Rightarrow> rng \<Rightarrow> 'a list \<times> rng" where
  "shuffle xs g = (case g of [] \<Rightarrow> (xs, []) | s # g' \<Rightarrow> (permute_by s xs, g'))"

text \<open>
  \<^verbatim>\<open>for (i = 0; i < locNum; ++i) std::shuffle(v[i].begin(), v[i].end(), ...)\<close> on a vector
  \<open>v\<close> of \<open>locNum\<close> vectors: each one is shuffled in turn.
\<close>

fun shuffle_all :: "'a list list \<Rightarrow> rng \<Rightarrow> 'a list list \<times> rng" where
  "shuffle_all [] g = ([], g)"
| "shuffle_all (v # vs) g =
     (let (v', g') = shuffle v g; (vs', g'') = shuffle_all vs g' in (v' # vs', g''))"

section \<open>PolymorphismMultiGContainerTools\<close>

text \<open>The loop that ends each operation: the names of the groups are copied.\<close>

definition updateGroupNames ::
  "PolymorphismMultiGContainer \<Rightarrow> nat set \<Rightarrow> PolymorphismMultiGContainer
     \<Rightarrow> PolymorphismMultiGContainer result" where
  "updateGroupNames pmgc grpIds permutedPmgc =
     foldE (\<lambda>gid p. bindE (getGroupName pmgc gid) (\<lambda>name. setGroupName p gid name))
       (sorted_list_of_set grpIds) permutedPmgc"

subsection \<open>permuteMultiG\<close>

definition permuteMultiG ::
  "PolymorphismMultiGContainer \<Rightarrow> rng \<Rightarrow> (PolymorphismMultiGContainer \<times> rng) result" where
  "permuteMultiG pmgc g =
     (let permutedPmgc = pmgc
      in bindE (foldE (\<lambda>i grps. bindE (getGroupId permutedPmgc i) (\<lambda>gid. Inr (grps @ [gid])))
                  [0..<size_PMGC permutedPmgc] [])
           (\<lambda>grps. let (grps, g') = shuffle grps g
                    in bindE (foldE (\<lambda>i p. bindE (nthE grps i) (\<lambda>gid. setGroupId p i gid))
                                [0..<size_PMGC permutedPmgc] permutedPmgc)
                         (\<lambda>p. Inr (p, g'))))"

subsection \<open>permuteMonoG\<close>

text \<open>The first loop of \<^verbatim>\<open>permuteMonoG\<close>: one list of genotype pointers per locus.\<close>

definition collectMonoGens ::
  "PolymorphismMultiGContainer \<Rightarrow> nat fset \<Rightarrow> MonolocusGenotype option list list result" where
  "collectMonoGens pmgc grps =
     (let locNum = getNumberOfLoci pmgc
      in foldE (\<lambda>i monoGens. bindE (getGroupId pmgc i) (\<lambda>gid.
            if gid |\<in>| grps
            then foldE (\<lambda>j monoGens.
                   bindE (multilocusGenotype pmgc i) (\<lambda>mg.
                   bindE (monolocusGenotype_clone mg j) (\<lambda>p.
                   Inr (monoGens[j := monoGens ! j @ [p]]))))
                   [0..<locNum] monoGens
            else Inr monoGens))
           [0..<size_PMGC pmgc] (replicate locNum []))"

text \<open>
  The loop that builds the multilocus genotype of the \<open>k\<close>-th selected record from the
  shuffled lists; a null pointer leaves the locus as it is.
\<close>

definition fillFromMonoGens ::
  "MonolocusGenotype option list list \<Rightarrow> nat \<Rightarrow> nat \<Rightarrow> MultilocusGenotype option
     \<Rightarrow> MultilocusGenotype option result" where
  "fillFromMonoGens monoGens locNum k tmpMg =
     foldE (\<lambda>j tmpMg.
        bindE (nthE monoGens j) (\<lambda>col.
        bindE (nthE col k) (\<lambda>p.
          case p of
            None \<Rightarrow> Inr tmpMg
          | Some gt \<Rightarrow> bindE (deref tmpMg) (\<lambda>mg.
                        bindE (setMonolocusGenotype mg j gt) (\<lambda>mg'. Inr (Some mg'))))))
       [0..<locNum] tmpMg"

text \<open>
  \<^verbatim>\<open>permutedPmgc\<close> is declared as a \<^verbatim>\<open>unique_ptr\<close> without an object and nothing is ever
  assigned to it: it is the null pointer (\<open>None\<close>) wherever it is used, and the value
  returned is that pointer.
\<close>

definition buildMonoG_step ::
  "PolymorphismMultiGContainer \<Rightarrow> nat fset \<Rightarrow> MonolocusGenotype option list list \<Rightarrow> nat \<Rightarrow> nat
     \<Rightarrow> (PolymorphismMultiGContainer option \<times> nat)
     \<Rightarrow> (PolymorphismMultiGContainer option \<times> nat) result" where
  "buildMonoG_step pmgc grps monoGens locNum i st =
     (case st of (permutedPmgc, k) \<Rightarrow>
        bindE (getGroupId pmgc i) (\<lambda>gid.
          if gid |\<in>| grps
          then bindE (fillFromMonoGens monoGens locNum k (Some (MultilocusGenotype_new locNum)))
                 (\<lambda>tmpMg. bindE (deref tmpMg) (\<lambda>mg.
                  bindE (deref permutedPmgc) (\<lambda>p.
                  Inr (Some (addMultilocusGenotype p mg gid), Suc k))))
          else bindE (multilocusGenotype pmgc i) (\<lambda>mg.
               bindE (deref permutedPmgc) (\<lambda>p.
               Inr (Some (addMultilocusGenotype p mg gid), k)))))"

definition updateGroupNames_ptr ::
  "PolymorphismMultiGContainer \<Rightarrow> nat set \<Rightarrow> PolymorphismMultiGContainer option
     \<Rightarrow> PolymorphismMultiGContainer option result" where
  "updateGroupNames_ptr pmgc grpIds permutedPmgc =
     foldE (\<lambda>gid permutedPmgc.
              bindE (getGroupName pmgc gid) (\<lambda>name.
              bindE (deref permutedPmgc) (\<lambda>p.
              bindE (setGroupName p gid name) (\<lambda>p'. Inr (Some p')))))
       (sorted_list_of_set grpIds) permutedPmgc"

definition permuteMonoG ::
  "PolymorphismMultiGContainer \<Rightarrow> nat fset \<Rightarrow> rng
     \<Rightarrow> (PolymorphismMultiGContainer option \<times> rng) result" where
  "permuteMonoG pmgc grps g =
     (let permutedPmgc = None;
          locNum = getNumberOfLoci pmgc
      in bindE (collectMonoGens pmgc grps) (\<lambda>monoGens.
         let (monoGens, g') = shuffle_all monoGens g
         in bindE (foldE (buildMonoG_step pmgc grps monoGens locNum) [0..<size_PMGC pmgc]
                     (permutedPmgc, 0))
              (\<lambda>(permutedPmgc, k).
                 bindE (updateGroupNames_ptr pmgc (getAllGroupsIds pmgc) permutedPmgc)
                   (\<lambda>permutedPmgc. Inr (permutedPmgc, g')))))"

subsection \<open>permuteIntraGroupMonoG\<close>

text \<open>
  \<^verbatim>\<open>addMultilocusGenotype\<close> receives the \<^verbatim>\<open>unique_ptr\<close> itself. Whether it takes the object
  out of the pointer (leaving it null) or copies it is decided by the container, which
  is not among the sources: it is the parameter \<open>moves\<close>. A null pointer handed over is
  not a record: the model stops there.
\<close>

definition addMultilocusGenotype_ptr ::
  "bool \<Rightarrow> PolymorphismMultiGContainer \<Rightarrow> MultilocusGenotype option \<Rightarrow> nat
     \<Rightarrow> (PolymorphismMultiGContainer \<times> MultilocusGenotype option) result" where
  "addMultilocusGenotype_ptr moves c tmpMg gid =
     bindE (deref tmpMg) (\<lambda>mg.
       Inr (addMultilocusGenotype c mg gid, if moves then None else Some mg))"

text \<open>
  The scan of the records for one group \<open>g\<close>: the genotypes of the records of \<open>g\<close> are
  pushed at the back of \<open>monoGens\<close>, and every record of a group outside the set is added
  to the output.
\<close>

definition scanGroupMonoG ::
  "PolymorphismMultiGContainer \<Rightarrow> nat fset \<Rightarrow> nat \<Rightarrow> nat
     \<Rightarrow> (PolymorphismMultiGContainer \<times> MonolocusGenotype option list list \<times> nat)
     \<Rightarrow> (PolymorphismMultiGContainer \<times> MonolocusGenotype option list list \<times> nat) result" where
  "scanGroupMonoG pmgc grps locNum g st =
     foldE (\<lambda>i (permutedPmgc, monoGens, nbIndInGroup). bindE (getGroupId pmgc i) (\<lambda>indivGrp.
        if indivGrp |\<in>| grps
        then (if indivGrp = g
              then bindE (foldE (\<lambda>j monoGens.
                            bindE (multilocusGenotype pmgc i) (\<lambda>mg.
                            bindE (monolocusGenotype_clone mg j) (\<lambda>p.
                            Inr (monoGens[j := monoGens ! j @ [p]]))))
                           [0..<locNum] monoGens)
                     (\<lambda>monoGens. Inr (permutedPmgc, monoGens, Suc nbIndInGroup))
              else Inr (permutedPmgc, monoGens, nbIndInGroup))
        else bindE (multilocusGenotype pmgc i) (\<lambda>mg.
               Inr (addMultilocusGenotype permutedPmgc mg indivGrp, monoGens, nbIndInGroup))))
       [0..<size_PMGC pmgc] st"

text \<open>
  \<^verbatim>\<open>monoGens\<close> is declared before the loop over the groups and is never emptied;
  \<^verbatim>\<open>tmpMg\<close> is made once for a group, before the loop over its individuals.
\<close>

definition permuteIntraGroupMonoG ::
  "bool \<Rightarrow> PolymorphismMultiGContainer \<Rightarrow> nat fset \<Rightarrow> rng
     \<Rightarrow> (PolymorphismMultiGContainer \<times> rng) result" where
  "permuteIntraGroupMonoG moves pmgc grps g0 =
     (let locNum = getNumberOfLoci pmgc
      in bindE (foldE (\<lambda>g (permutedPmgc, monoGens, rg).
                  bindE (scanGroupMonoG pmgc grps locNum g (permutedPmgc, monoGens, 0))
                    (\<lambda>(permutedPmgc, monoGens, nbIndInGroup).
                       if nbIndInGroup > 0
                       then (let (monoGens, rg) = shuffle_all monoGens rg
                             in bindE (foldE (\<lambda>k (permutedPmgc, tmpMg).
                                         bindE (fillFromMonoGens monoGens locNum k tmpMg) (\<lambda>tmpMg.
                                         addMultilocusGenotype_ptr moves permutedPmgc tmpMg g))
                                        [0..<nbIndInGroup]
                                        (permutedPmgc, Some (MultilocusGenotype_new locNum)))
                                  (\<lambda>(permutedPmgc, tmpMg). Inr (permutedPmgc, monoGens, rg)))
                       else Inr (permutedPmgc, monoGens, rg)))
                 (sorted_list_of_fset grps) (PMGC_new, replicate locNum [], g0))
           (\<lambda>(permutedPmgc, monoGens, rg).
              bindE (updateGroupNames pmgc (getAllGroupsIds pmgc) permutedPmgc)
                (\<lambda>permutedPmgc. Inr (permutedPmgc, rg))))"

subsection \<open>permuteAlleles\<close>

text \<open>The first loop of \<^verbatim>\<open>permuteAlleles\<close>: one pool of alleles per locus.\<close>

definition pushAlleles ::
  "MultilocusGenotype \<Rightarrow> nat \<Rightarrow> nat list list \<Rightarrow> nat list list result" where
  "pushAlleles mg j alleles =
     bindE (isMonolocusGenotypeMissing mg j) (\<lambda>missing.
       if \<not> missing
       then bindE (alleleIndexAt mg j) (\<lambda>ai. Inr (alleles[j := alleles ! j @ ai]))
       else Inr alleles)"

definition collectAlleles ::
  "PolymorphismMultiGContainer \<Rightarrow> nat fset \<Rightarrow> nat list list result" where
  "collectAlleles pmgc grps =
     (let locNum = getNumberOfLoci pmgc
      in foldE (\<lambda>i alleles. bindE (getGroupId pmgc i) (\<lambda>gid.
            if gid |\<in>| grps
            then foldE (\<lambda>j alleles. bindE (multilocusGenotype pmgc i) (\<lambda>mg. pushAlleles mg j alleles))
                   [0..<locNum] alleles
            else Inr alleles))
           [0..<size_PMGC pmgc] (replicate locNum []))"

text \<open>\<^verbatim>\<open>alleles[j][k[j]++]\<close>: the allele read, and the counters after the increment.\<close>

definition takeAllele :: "nat list list \<Rightarrow> nat \<Rightarrow> nat list \<Rightarrow> (nat \<times> nat list) result" where
  "takeAllele alleles j k =
     bindE (nthE alleles j) (\<lambda>pool.
     bindE (nthE k j) (\<lambda>kj.
     bindE (nthE pool kj) (\<lambda>a. Inr (a, k[j := Suc kj]))))"

text \<open>
  \<^verbatim>\<open>BiAlleleMonolocusGenotype(alleles[j][k[j]++], alleles[j][k[j]++])\<close>: C++ does not fix
  the order in which the two arguments are evaluated. \<open>leftFirst\<close> tells whether the
  first argument is the one evaluated first; \<open>a1\<close> is the allele read first.
\<close>

definition makeBiAllele :: "bool \<Rightarrow> nat \<Rightarrow> nat \<Rightarrow> MonolocusGenotype" where
  "makeBiAllele leftFirst a1 a2 =
     (if leftFirst then BiAlleleMonolocusGenotype a1 a2 else BiAlleleMonolocusGenotype a2 a1)"

text \<open>
  The two \<^verbatim>\<open>if\<close> statements that rebuild one locus from \<open>nbAlls\<close>, the number of alleles
  of the genotype in the input.
\<close>

definition rebuildGenotype ::
  "bool \<Rightarrow> nat list list \<Rightarrow> nat \<Rightarrow> nat \<Rightarrow> (MultilocusGenotype \<times> nat list)
     \<Rightarrow> (MultilocusGenotype \<times> nat list) result" where
  "rebuildGenotype leftFirst alleles j nbAlls st =
     bindE (if nbAlls = 1
            then (case st of (tmpMg, k) \<Rightarrow>
                    bindE (takeAllele alleles j k) (\<lambda>(a, k).
                    bindE (setMonolocusGenotype tmpMg j (MonoAlleleMonolocusGenotype a)) (\<lambda>tmpMg.
                    Inr (tmpMg, k))))
            else Inr st)
       (\<lambda>(tmpMg, k).
          if nbAlls = 2
          then bindE (takeAllele alleles j k) (\<lambda>(a1, k).
               bindE (takeAllele alleles j k) (\<lambda>(a2, k).
               bindE (setMonolocusGenotype tmpMg j (makeBiAllele leftFirst a1 a2)) (\<lambda>tmpMg.
               Inr (tmpMg, k))))
          else Inr (tmpMg, k))"

text \<open>The body of the loop over the loci for a selected record \<open>mg\<close> of the input.\<close>

definition rebuildLocus ::
  "bool \<Rightarrow> nat list list \<Rightarrow> MultilocusGenotype \<Rightarrow> nat \<Rightarrow> (MultilocusGenotype \<times> nat list)
     \<Rightarrow> (MultilocusGenotype \<times> nat list) result" where
  "rebuildLocus leftFirst alleles mg j st =
     bindE (isMonolocusGenotypeMissing mg j) (\<lambda>missing.
       if \<not> missing
       then bindE (alleleIndexAt mg j) (\<lambda>ai. rebuildGenotype leftFirst alleles j (length ai) st)
       else Inr st)"

text \<open>The loop that builds the output of \<^verbatim>\<open>permuteAlleles\<close> from the shuffled pools.\<close>

definition rebuildAlleles ::
  "bool \<Rightarrow> PolymorphismMultiGContainer \<Rightarrow> nat fset \<Rightarrow> nat list list
     \<Rightarrow> (PolymorphismMultiGContainer \<times> nat list)
     \<Rightarrow> (PolymorphismMultiGContainer \<times> nat list) result" where
  "rebuildAlleles leftFirst pmgc grps alleles st =
     (let locNum = getNumberOfLoci pmgc
      in foldE (\<lambda>i (permutedPmgc, k). bindE (getGroupId pmgc i) (\<lambda>gid.
            if gid |\<in>| grps
            then bindE (foldE (\<lambda>j st. bindE (multilocusGenotype pmgc i) (\<lambda>mg.
                                 rebuildLocus leftFirst alleles mg j st))
                          [0..<locNum] (MultilocusGenotype_new locNum, k))
                   (\<lambda>(tmpMg, k). Inr (addMultilocusGenotype permutedPmgc tmpMg gid, k))
            else bindE (multilocusGenotype pmgc i) (\<lambda>tmpMg.
                   Inr (addMultilocusGenotype permutedPmgc tmpMg gid, k))))
           [0..<size_PMGC pmgc] st)"

definition permuteAlleles ::
  "bool \<Rightarrow> PolymorphismMultiGContainer \<Rightarrow> nat fset \<Rightarrow> rng
     \<Rightarrow> (PolymorphismMultiGContainer \<times> rng) result" where
  "permuteAlleles leftFirst pmgc grps g =
     (let locNum = getNumberOfLoci pmgc
      in bindE (collectAlleles pmgc grps) (\<lambda>alleles.
         let (alleles, g') = shuffle_all alleles g
         in bindE (rebuildAlleles leftFirst pmgc grps alleles (PMGC_new, replicate locNum 0))
              (\<lambda>(permutedPmgc, k).
                 bindE (updateGroupNames pmgc (getAllGroupsIds pmgc) permutedPmgc)
                   (\<lambda>permutedPmgc. Inr (permutedPmgc, g')))))"

subsection \<open>permuteIntraGroupAlleles\<close>

text \<open>
  The scan of the records for one group \<open>g\<close>. \<^verbatim>\<open>nbAllelesForInds[j]\<close> receives an entry
  only for a genotype that is not missing.
\<close>

definition pushAllelesCounted ::
  "MultilocusGenotype \<Rightarrow> nat \<Rightarrow> (nat list list \<times> nat list list) \<Rightarrow> (nat list list \<times> nat list list) result" where
  "pushAllelesCounted mg j st =
     (case st of (nbAllelesForInds, alleles) \<Rightarrow>
        bindE (isMonolocusGenotypeMissing mg j) (\<lambda>missing.
          if \<not> missing
          then bindE (alleleIndexAt mg j) (\<lambda>ai.
                 let nbAlls = length ai;
                     nbAllelesForInds = nbAllelesForInds[j := nbAllelesForInds ! j @ [nbAlls]]
                 in Inr (nbAllelesForInds, alleles[j := alleles ! j @ ai]))
          else Inr (nbAllelesForInds, alleles)))"

definition scanGroupAlleles ::
  "PolymorphismMultiGContainer \<Rightarrow> nat fset \<Rightarrow> nat \<Rightarrow> nat
     \<Rightarrow> (PolymorphismMultiGContainer \<times> nat list list \<times> nat list list \<times> nat)
     \<Rightarrow> (PolymorphismMultiGContainer \<times> nat list list \<times> nat list list \<times> nat) result" where
  "scanGroupAlleles pmgc grps locNum g st =
     foldE (\<lambda>i (permutedPmgc, nbAllelesForInds, alleles, nbIndInGroup).
        bindE (getGroupId pmgc i) (\<lambda>indivGrp.
        if indivGrp |\<in>| grps
        then (if indivGrp = g
              then bindE (foldE (\<lambda>j st. bindE (multilocusGenotype pmgc i) (\<lambda>mg.
                                   pushAllelesCounted mg j st))
                            [0..<locNum] (nbAllelesForInds, alleles))
                     (\<lambda>(nbAllelesForInds, alleles).
                        Inr (permutedPmgc, nbAllelesForInds, alleles, Suc nbIndInGroup))
              else Inr (permutedPmgc, nbAllelesForInds, alleles, nbIndInGroup))
        else bindE (multilocusGenotype pmgc i) (\<lambda>mg.
               Inr (addMultilocusGenotype permutedPmgc mg indivGrp,
                    nbAllelesForInds, alleles, nbIndInGroup))))
       [0..<size_PMGC pmgc] st"

text \<open>The loop over the individuals of one group, reading \<^verbatim>\<open>nbAllelesForInds[j][ind]\<close>.\<close>

definition rebuildGroupAlleles ::
  "bool \<Rightarrow> nat \<Rightarrow> nat \<Rightarrow> nat list list \<Rightarrow> nat list list \<Rightarrow> nat
     \<Rightarrow> (PolymorphismMultiGContainer \<times> nat list)
     \<Rightarrow> (PolymorphismMultiGContainer \<times> nat list) result" where
  "rebuildGroupAlleles leftFirst locNum g nbAllelesForInds alleles nbIndInGroup st =
     foldE (\<lambda>ind (permutedPmgc, k).
        bindE (foldE (\<lambda>j st.
                  bindE (nthE nbAllelesForInds j) (\<lambda>nbs.
                  bindE (nthE nbs ind) (\<lambda>nbAlls.
                  rebuildGenotype leftFirst alleles j nbAlls st)))
                 [0..<locNum] (MultilocusGenotype_new locNum, k))
          (\<lambda>(tmpMg, k). Inr (addMultilocusGenotype permutedPmgc tmpMg g, k)))
       [0..<nbIndInGroup] st"

text \<open>
  \<^verbatim>\<open>alleles\<close> is declared before the loop over the groups and is never emptied;
  \<^verbatim>\<open>nbAllelesForInds\<close> and \<^verbatim>\<open>k\<close> are made anew for each group.
\<close>

definition permuteIntraGroupAlleles ::
  "bool \<Rightarrow> PolymorphismMultiGContainer \<Rightarrow> nat fset \<Rightarrow> rng
     \<Rightarrow> (PolymorphismMultiGContainer \<times> rng) result" where
  "permuteIntraGroupAlleles leftFirst pmgc grps g0 =
     (let locNum = getNumberOfLoci pmgc
      in bindE (foldE (\<lambda>g (permutedPmgc, alleles, rg).
                  bindE (scanGroupAlleles pmgc grps locNum g
                           (permutedPmgc, replicate locNum [], alleles, 0))
                    (\<lambda>(permutedPmgc, nbAllelesForInds, alleles, nbIndInGroup).
                       if nbIndInGroup > 0
                       then (let (alleles, rg) = shuffle_all alleles rg
                             in bindE (rebuildGroupAlleles leftFirst locNum g nbAllelesForInds alleles
                                         nbIndInGroup (permutedPmgc, replicate locNum 0))
                                  (\<lambda>(permutedPmgc, k). Inr (permutedPmgc, alleles, rg)))
                       else Inr (permutedPmgc, alleles, rg)))
                 (sorted_list_of_fset grps) (PMGC_new, replicate locNum [], g0))
           (\<lambda>(permutedPmgc, alleles, rg).
              bindE (updateGroupNames pmgc (getAllGroupsIds pmgc) permutedPmgc)
                (\<lambda>permutedPmgc. Inr (permutedPmgc, rg))))"

subsection \<open>extractGroups\<close>

definition extractGroup ::
  "PolymorphismMultiGContainer \<Rightarrow> nat fset \<Rightarrow> nat \<Rightarrow> PolymorphismMultiGContainer
     \<Rightarrow> PolymorphismMultiGContainer result" where
  "extractGroup pmgc grps g subPmgc =
     foldE (\<lambda>i subPmgc. bindE (getGroupId pmgc i) (\<lambda>indivGrp.
        if indivGrp |\<in>| grps
        then (if indivGrp = g
              then bindE (multilocusGenotype pmgc i) (\<lambda>tmpMg.
                     Inr (addMultilocusGenotype subPmgc tmpMg indivGrp))
              else Inr subPmgc)
        else Inr subPmgc))
       [0..<size_PMGC pmgc] subPmgc"

definition extractGroups ::
  "PolymorphismMultiGContainer \<Rightarrow> nat fset \<Rightarrow> PolymorphismMultiGContainer result" where
  "extractGroups pmgc grps =
     bindE (foldE (extractGroup pmgc grps) (sorted_list_of_fset grps) PMGC_new)
       (\<lambda>subPmgc. updateGroupNames pmgc (getAllGroupsIds subPmgc) subPmgc)"

section \<open>SequenceStatistics (declared in src/Pop/SequenceStatistics.h)\<close>

text \<open>
  Modelled from the spec: the aligned sequences that the statistics read
  (\<^verbatim>\<open>PolymorphismSequenceContainer\<close> is not among the sources): sequences of equal length
  over resolved states, gaps and unresolved symbols; a site is a column.
\<close>

datatype symbol = Gap | Unresolved | State nat

record PolymorphismSequenceContainer =
  sequences :: "symbol list list"

definition getNumberOfSequences :: "PolymorphismSequenceContainer \<Rightarrow> nat" where
  "getNumberOfSequences psc = length (sequences psc)"

definition getNumberOfSites :: "PolymorphismSequenceContainer \<Rightarrow> nat" where
  "getNumberOfSites psc = (case sequences psc of [] \<Rightarrow> 0 | s # _ \<Rightarrow> length s)"

definition getSite :: "PolymorphismSequenceContainer \<Rightarrow> nat \<Rightarrow> symbol list" where
  "getSite psc i = map (\<lambda>s. s ! i) (sequences psc)"

definition isComplete :: "symbol list \<Rightarrow> bool" where
  "isComplete site = list_all (\<lambda>x. x \<noteq> Gap \<and> x \<noteq> Unresolved) site"

text \<open>
  Modelled from the spec: \<^verbatim>\<open>polymorphicSiteNumber\<close>, of which the sources hold the
  declaration only: the number \<open>S\<close> of sites with at least two distinct symbols; with
  \<open>gapflag\<close> the sites with a gap or an unresolved symbol are left out, and without it a
  gap counts as a symbol of its own.
\<close>

definition polymorphicSiteNumber :: "PolymorphismSequenceContainer \<Rightarrow> bool \<Rightarrow> nat" where
  "polymorphicSiteNumber psc gapflag =
     length (filter (\<lambda>i. (gapflag \<longrightarrow> isComplete (getSite psc i))
                         \<and> 2 \<le> length (remdups (getSite psc i)))
               [0..<getNumberOfSites psc])"

text \<open>
  Modelled from the spec: the value \<open>a1\<close> of \<^verbatim>\<open>getUsefullValues_(n)\<close>, of which the
  sources hold the declaration and its formula only: the terms \<open>1/i\<close> are added up for
  \<open>i\<close> from 1 to \<open>n - 1\<close>. The C++ values are doubles; here they are real numbers, and
  the rounding of the floating-point operations is left out.
\<close>

fun a1_upto :: "nat \<Rightarrow> real" where
  "a1_upto 0 = 0"
| "a1_upto (Suc m) = a1_upto m + 1 / real (Suc m)"

definition getUsefullValues_a1 :: "nat \<Rightarrow> real" where
  "getUsefullValues_a1 n = a1_upto (n - 1)"

text \<open>
  Modelled from the spec: \<^verbatim>\<open>watterson75\<close>, of which the sources hold the declaration and
  its formula only: \<open>S / a1\<close>, for at least two sequences; with fewer the statistic fails
  with a dimension error.
\<close>

definition watterson75 :: "PolymorphismSequenceContainer \<Rightarrow> bool \<Rightarrow> real result" where
  "watterson75 psc gapflag =
     (let n = getNumberOfSequences psc
      in if n < 2 then Inl DimensionException
         else Inr (real (polymorphicSiteNumber psc gapflag) / getUsefullValues_a1 n))"

text \<open>Four sequences of five sites; the second and the fourth site are segregating.\<close>

definition example_alignment :: PolymorphismSequenceContainer where
  "example_alignment =
     \<lparr>sequences = [[State 0, State 1, State 2, State 3, State 0],
                   [State 0, State 1, State 2, State 3, State 0],
                   [State 0, State 3, State 2, State 3, State 0],
                   [State 0, State 1, State 2, State 0, State 0]]\<rparr>"

section \<open>What the properties of allele permutation are stated with\<close>

text \<open>
  The alleles of a record at a locus (none when the genotype is missing), and the alleles
  of a locus over the records of the selected groups, in the order of the records.
\<close>

definition allelesAt :: "MultilocusGenotype \<Rightarrow> nat \<Rightarrow> nat list" where
  "allelesAt mg j = (case mg ! j of None \<Rightarrow> [] | Some gt \<Rightarrow> getAlleleIndex gt)"

definition locusAlleles :: "nat fset \<Rightarrow> nat \<Rightarrow> (MultilocusGenotype \<times> nat) list \<Rightarrow> nat list" where
  "locusAlleles grps j rs =
     concat (map (\<lambda>r. if snd r |\<in>| grps then allelesAt (fst r) j else []) rs)"

text \<open>
  The number of entries of the pool that the rebuilding loop takes for a genotype of the
  input: its number of alleles when that is 1 or 2, and nothing otherwise; and the sum
  over the records of the selected groups.
\<close>

definition consumed :: "MultilocusGenotype \<Rightarrow> nat \<Rightarrow> nat" where
  "consumed mg j = (let n = length (allelesAt mg j) in if n = 1 \<or> n = 2 then n else 0)"

definition totalConsumed :: "nat fset \<Rightarrow> nat \<Rightarrow> (MultilocusGenotype \<times> nat) list \<Rightarrow> nat" where
  "totalConsumed grps j rs =
     sum_list (map (\<lambda>r. if snd r |\<in>| grps then consumed (fst r) j else 0) rs)"

text \<open>
  The genotype rebuilt for one locus from the pool \<open>pool\<close> read from position \<open>kj\<close>, the
  vector rebuilt for one record, the counters after it, and the records rebuilt from a
  list of records: what the loops of \<^verbatim>\<open>permuteAlleles\<close> are proved to compute.
\<close>

definition rebuilt :: "bool \<Rightarrow> nat list \<Rightarrow> nat \<Rightarrow> MonolocusGenotype option \<Rightarrow> MonolocusGenotype option" where
  "rebuilt leftFirst pool kj p =
     (case p of
        None \<Rightarrow> None
      | Some gt \<Rightarrow>
          (let n = length (getAlleleIndex gt)
           in if n = 1 then Some (MonoAlleleMonolocusGenotype (pool ! kj))
              else if n = 2 then Some (makeBiAllele leftFirst (pool ! kj) (pool ! Suc kj))
              else None))"

definition rebuiltRow :: "bool \<Rightarrow> nat list list \<Rightarrow> nat list \<Rightarrow> MultilocusGenotype \<Rightarrow> MultilocusGenotype" where
  "rebuiltRow leftFirst alleles k mg =
     map (\<lambda>j. rebuilt leftFirst (alleles ! j) (k ! j) (mg ! j)) [0..<length mg]"

definition advance :: "nat list \<Rightarrow> MultilocusGenotype \<Rightarrow> nat list" where
  "advance k mg = map (\<lambda>j. k ! j + consumed mg j) [0..<length k]"

fun rebuiltRecords ::
  "bool \<Rightarrow> nat list list \<Rightarrow> nat fset \<Rightarrow> nat list \<Rightarrow> (MultilocusGenotype \<times> nat) list
     \<Rightarrow> (MultilocusGenotype \<times> nat) list" where
  "rebuiltRecords leftFirst alleles grps k [] = []"
| "rebuiltRecords leftFirst alleles grps k (r # rs) =
     (if snd r |\<in>| grps
      then (rebuiltRow leftFirst alleles k (fst r), snd r)
             # rebuiltRecords leftFirst alleles grps (advance k (fst r)) rs
      else r # rebuiltRecords leftFirst alleles grps k rs)"

text \<open>Every genotype that is not missing holds one or two alleles.\<close>

definition monoOrBiAllelic :: "PolymorphismMultiGContainer \<Rightarrow> bool" where
  "monoOrBiAllelic c =
     list_all (\<lambda>r. list_all (\<lambda>p. case p of
                                     None \<Rightarrow> True
                                   | Some gt \<Rightarrow> length (getAlleleIndex gt) = 1
                                                \<or> length (getAlleleIndex gt) = 2) (fst r))
       (records c)"

section \<open>Collections to run the operations on\<close>

text \<open>Three records of one locus, one in each of the groups 1, 2 and 3.\<close>

definition example_pmgc :: PolymorphismMultiGContainer where
  "example_pmgc =
     \<lparr>records = [([Some (MonoAlleleMonolocusGenotype 7)], 1),
                 ([Some (MonoAlleleMonolocusGenotype 8)], 2),
                 ([Some (MonoAlleleMonolocusGenotype 9)], 3)],
      groupsNames = [1 \<mapsto> [], 2 \<mapsto> [], 3 \<mapsto> []]\<rparr>"

text \<open>Three records of two loci, with haploid, diploid and missing genotypes.\<close>

definition example_diploid :: PolymorphismMultiGContainer where
  "example_diploid =
     \<lparr>records = [([Some (BiAlleleMonolocusGenotype 1 2), None], 1),
                 ([Some (MonoAlleleMonolocusGenotype 3), Some (BiAlleleMonolocusGenotype 4 5)], 2),
                 ([Some (BiAlleleMonolocusGenotype 6 6), Some (MonoAlleleMonolocusGenotype 7)], 3)],
      groupsNames = [1 \<mapsto> [], 2 \<mapsto> ''east'', 3 \<mapsto> []]\<rparr>"

text \<open>Two records of one locus in group 1, the first with three alleles.\<close>

definition example_triallelic :: PolymorphismMultiGContainer where
  "example_triallelic =
     \<lparr>records = [([Some (MultiAlleleMonolocusGenotype [1, 2, 3])], 1),
                 ([Some (BiAlleleMonolocusGenotype 4 5)], 1)],
      groupsNames = [1 \<mapsto> []]\<rparr>"

section \<open>Properties of DataSet\<close>

lemma DataSet_getGroupById_loop_None:
  "(DataSet_getGroupById_loop gs gid = None) = (gid \<notin> getGroupId_G ` set gs)"
  by (induction gs) auto





lemma toString_nonempty: "toString n \<noteq> []"
  by (subst toString.simps) simp



lemma DataSet_setGroupName_loop_None:
  "(DataSet_setGroupName_loop gs gid n = None) = (gid \<notin> getGroupId_G ` set gs)"
  by (induction gs) auto

lemma DataSet_getGroupPosition_loop_None:
  "(DataSet_getGroupPosition_loop gs gid i = None) = (gid \<notin> getGroupId_G ` set gs)"
  by (induction gs arbitrary: i) auto

text \<open>
  Claim C6. For a group id that no group of the DataSet has, \<^verbatim>\<open>getGroupName\<close> is said
  to raise \<^verbatim>\<open>GroupNotFoundException\<close>. The code dereferences the null pointer that
  \<^verbatim>\<open>getGroupById\<close> returns: for every such id the result is the null-pointer
  dereference, never the exception (whose \<^verbatim>\<open>throw\<close> stands after two returns). The
  sibling lookups \<^verbatim>\<open>setGroupName\<close> and \<^verbatim>\<open>getGroupPosition\<close> do raise it.
\<close>

theorem DataSet_getGroupName_unknown_id:
  assumes "gid \<notin> getGroupId_G ` set (groups ds)"
  shows "DataSet_getGroupName ds gid = Inl NullPointerDereference
         \<and> DataSet_getGroupName ds gid \<noteq> Inl (GroupNotFoundException gid)
         \<and> DataSet_setGroupName ds gid n = Inl (GroupNotFoundException gid)
         \<and> DataSet_getGroupPosition ds gid = Inl (GroupNotFoundException gid)"
proof -
  from assms have "DataSet_getGroupById_loop (groups ds) gid = None"
    by (simp add: DataSet_getGroupById_loop_None)
  then have "DataSet_getGroupName ds gid = Inl NullPointerDereference"
    by (simp add: DataSet_getGroupName_def DataSet_getGroupById_def)
  moreover from assms have "DataSet_setGroupName_loop (groups ds) gid n = None"
    by (simp add: DataSet_setGroupName_loop_None)
  then have "DataSet_setGroupName ds gid n = Inl (GroupNotFoundException gid)"
    by (simp add: DataSet_setGroupName_def)
  moreover from assms have "DataSet_getGroupPosition_loop (groups ds) gid 0 = None"
    by (simp add: DataSet_getGroupPosition_loop_None)
  then have "DataSet_getGroupPosition ds gid = Inl (GroupNotFoundException gid)"
    by (simp add: DataSet_getGroupPosition_def)
  ultimately show ?thesis by simp
qed

theorem DataSet_getGroupName_unknown_id_witness:
  "5 \<notin> getGroupId_G ` set (groups example_DataSet)
   \<and> DataSet_getGroupName example_DataSet 5 = Inl NullPointerDereference
   \<and> DataSet_getGroupName example_DataSet 5 \<noteq> Inl (GroupNotFoundException 5)
   \<and> DataSet_setGroupName example_DataSet 5 ''west'' = Inl (GroupNotFoundException 5)"
proof -
  have h: "5 \<notin> getGroupId_G ` set (groups example_DataSet)"
    by (simp add: example_DataSet_def getGroupId_G_def)
  from DataSet_getGroupName_unknown_id [OF h, of "''west''"] h show ?thesis by simp
qed



subsection \<open>Copy construction and assignment\<close>

text \<open>The counter of the two loops: one step, and its range.\<close>

lemma unat_succ: "unat i < n \<Longrightarrow> n < 2 ^ 32 \<Longrightarrow> unat (i + 1 :: 32 word) = Suc (unat i)"
  by (simp add: unat_add_lem [THEN iffD1])

lemma unat_succ_le: "unat (i + 1 :: 32 word) \<le> Suc (unat i)"
proof -
  have "unat (i + 1) = (unat i + unat (1 :: 32 word)) mod 2 ^ 32"
    by (simp add: unat_word_ariths)
  also have "\<dots> \<le> unat i + unat (1 :: 32 word)"
    by (rule mod_less_eq_dividend)
  finally show ?thesis by simp
qed

lemma unat_less_range: "unat (i :: 32 word) < 2 ^ 32"
  using unsigned_less [of i, where ?'a = nat] by simp

lemma push_groups_other:
  assumes "t \<noteq> s" and "length (groups (h s)) < 2 ^ 32"
    and "unat i \<le> length (groups (h s))"
  shows "push_groups t s i h
           = Some (h(t := (h t)\<lparr>groups := groups (h t) @ drop (unat i) (groups (h s))\<rparr>))"
  using assms
proof (induction "length (groups (h s)) - unat i" arbitrary: i h)
  case 0
  then have "unat i = length (groups (h s))" by simp
  then show ?case
    by (subst push_groups.simps) simp
next
  case (Suc n)
  let ?gs = "groups (h s)"
  from Suc.hyps(2) have lt: "unat i < length ?gs" by simp
  let ?h1 = "h(t := (h t)\<lparr>groups := groups (h t) @ [?gs ! unat i]\<rparr>)"
  have same: "?h1 s = h s" using Suc.prems(1) by simp
  have u: "unat (i + 1) = Suc (unat i)"
    using lt Suc.prems(2) by (rule unat_succ)
  have n: "n = length (groups (?h1 s)) - unat (i + 1)"
    using Suc.hyps(2) unfolding same u by simp
  have b: "length (groups (?h1 s)) < 2 ^ 32" and le: "unat (i + 1) \<le> length (groups (?h1 s))"
    using Suc.prems(2) lt unfolding same u by simp_all
  have "push_groups t s i h = push_groups t s (i + 1) ?h1"
    using lt by (subst push_groups.simps) simp
  also have "\<dots> = Some (?h1(t := (?h1 t)\<lparr>groups := groups (?h1 t)
                        @ drop (unat (i + 1)) (groups (?h1 s))\<rparr>))"
    using n Suc.prems(1) b le by (rule Suc.hyps(1))
  also have "?h1(t := (?h1 t)\<lparr>groups := groups (?h1 t)
                        @ drop (unat (i + 1)) (groups (?h1 s))\<rparr>)
               = h(t := (h t)\<lparr>groups := groups (h t) @ drop (unat i) ?gs\<rparr>)"
    unfolding same u using lt by (simp add: Cons_nth_drop_Suc)
  finally show ?case .
qed

lemma push_groups_self:
  assumes "push_groups t s i h = Some y"
  shows "\<not> (t = s \<and> unat i < length (groups (h s)))"
proof (rule push_groups.raw_induct
    [where P = "\<lambda>t s i h y. \<not> (t = s \<and> unat i < length (groups (h s)))", OF _ assms])
  fix f :: "addr \<Rightarrow> addr \<Rightarrow> 32 word \<Rightarrow> ('a, 'b, 'c, 'd) store \<Rightarrow> ('a, 'b, 'c, 'd) store option"
  fix t s :: addr and i :: "32 word" and h y :: "('a, 'b, 'c, 'd) store"
  let ?h1 = "h(t := (h t)\<lparr>groups := groups (h t) @ [groups (h s) ! unat i]\<rparr>)"
  assume IH: "\<And>t s i h y. f t s i h = Some y \<Longrightarrow> \<not> (t = s \<and> unat i < length (groups (h s)))"
    and step: "(if unat i < length (groups (h s)) then f t s (i + 1) ?h1 else Some h) = Some y"
  show "\<not> (t = s \<and> unat i < length (groups (h s)))"
  proof
    assume a: "t = s \<and> unat i < length (groups (h s))"
    from a have eq: "t = s" and lt: "unat i < length (groups (h s))" by simp_all
    from lt step have run: "f t s (i + 1) ?h1 = Some y" by simp
    have len: "length (groups (?h1 s)) = Suc (length (groups (h s)))"
      using eq by simp
    have "unat (i + 1) < length (groups (?h1 s))"
      unfolding len using lt unat_succ_le [of i] by linarith
    with IH [OF run] eq show False by blast
  qed
qed

lemma push_groups_overflow:
  assumes "push_groups t s i h = Some y"
  shows "\<not> (t \<noteq> s \<and> 2 ^ 32 \<le> length (groups (h s)))"
proof (rule push_groups.raw_induct
    [where P = "\<lambda>t s i h y. \<not> (t \<noteq> s \<and> 2 ^ 32 \<le> length (groups (h s)))", OF _ assms])
  fix f :: "addr \<Rightarrow> addr \<Rightarrow> 32 word \<Rightarrow> ('a, 'b, 'c, 'd) store \<Rightarrow> ('a, 'b, 'c, 'd) store option"
  fix t s :: addr and i :: "32 word" and h y :: "('a, 'b, 'c, 'd) store"
  let ?h1 = "h(t := (h t)\<lparr>groups := groups (h t) @ [groups (h s) ! unat i]\<rparr>)"
  assume IH: "\<And>t s i h y. f t s i h = Some y \<Longrightarrow> \<not> (t \<noteq> s \<and> 2 ^ 32 \<le> length (groups (h s)))"
    and step: "(if unat i < length (groups (h s)) then f t s (i + 1) ?h1 else Some h) = Some y"
  show "\<not> (t \<noteq> s \<and> 2 ^ 32 \<le> length (groups (h s)))"
  proof
    assume a: "t \<noteq> s \<and> 2 ^ 32 \<le> length (groups (h s))"
    from a have ne: "t \<noteq> s" and big: "2 ^ 32 \<le> length (groups (h s))" by blast+
    have lt: "unat i < length (groups (h s))"
      using big unat_less_range [of i] by linarith
    from lt step have run: "f t s (i + 1) ?h1 = Some y" by simp
    have same: "?h1 s = h s" using ne by simp
    from IH [OF run] have "\<not> (t \<noteq> s \<and> 2 ^ 32 \<le> length (groups (?h1 s)))" .
    then show False unfolding same using ne big by blast
  qed
qed


lemma push_localities_other:
  assumes "t \<noteq> s" and "length (localities (h s)) < 2 ^ 32"
    and "unat i \<le> length (localities (h s))"
  shows "push_localities t s i h
           = Some (h(t := (h t)\<lparr>localities := localities (h t) @ drop (unat i) (localities (h s))\<rparr>))"
  using assms
proof (induction "length (localities (h s)) - unat i" arbitrary: i h)
  case 0
  then have "unat i = length (localities (h s))" by simp
  then show ?case
    by (subst push_localities.simps) simp
next
  case (Suc n)
  let ?gs = "localities (h s)"
  from Suc.hyps(2) have lt: "unat i < length ?gs" by simp
  let ?h1 = "h(t := (h t)\<lparr>localities := localities (h t) @ [?gs ! unat i]\<rparr>)"
  have same: "?h1 s = h s" using Suc.prems(1) by simp
  have u: "unat (i + 1) = Suc (unat i)"
    using lt Suc.prems(2) by (rule unat_succ)
  have n: "n = length (localities (?h1 s)) - unat (i + 1)"
    using Suc.hyps(2) unfolding same u by simp
  have b: "length (localities (?h1 s)) < 2 ^ 32" and le: "unat (i + 1) \<le> length (localities (?h1 s))"
    using Suc.prems(2) lt unfolding same u by simp_all
  have "push_localities t s i h = push_localities t s (i + 1) ?h1"
    using lt by (subst push_localities.simps) simp
  also have "\<dots> = Some (?h1(t := (?h1 t)\<lparr>localities := localities (?h1 t)
                        @ drop (unat (i + 1)) (localities (?h1 s))\<rparr>))"
    using n Suc.prems(1) b le by (rule Suc.hyps(1))
  also have "?h1(t := (?h1 t)\<lparr>localities := localities (?h1 t)
                        @ drop (unat (i + 1)) (localities (?h1 s))\<rparr>)
               = h(t := (h t)\<lparr>localities := localities (h t) @ drop (unat i) ?gs\<rparr>)"
    unfolding same u using lt by (simp add: Cons_nth_drop_Suc)
  finally show ?case .
qed

lemma push_localities_self:
  assumes "push_localities t s i h = Some y"
  shows "\<not> (t = s \<and> unat i < length (localities (h s)))"
proof (rule push_localities.raw_induct
    [where P = "\<lambda>t s i h y. \<not> (t = s \<and> unat i < length (localities (h s)))", OF _ assms])
  fix f :: "addr \<Rightarrow> addr \<Rightarrow> 32 word \<Rightarrow> ('a, 'b, 'c, 'd) store \<Rightarrow> ('a, 'b, 'c, 'd) store option"
  fix t s :: addr and i :: "32 word" and h y :: "('a, 'b, 'c, 'd) store"
  let ?h1 = "h(t := (h t)\<lparr>localities := localities (h t) @ [localities (h s) ! unat i]\<rparr>)"
  assume IH: "\<And>t s i h y. f t s i h = Some y \<Longrightarrow> \<not> (t = s \<and> unat i < length (localities (h s)))"
    and step: "(if unat i < length (localities (h s)) then f t s (i + 1) ?h1 else Some h) = Some y"
  show "\<not> (t = s \<and> unat i < length (localities (h s)))"
  proof
    assume a: "t = s \<and> unat i < length (localities (h s))"
    from a have eq: "t = s" and lt: "unat i < length (localities (h s))" by simp_all
    from lt step have run: "f t s (i + 1) ?h1 = Some y" by simp
    have len: "length (localities (?h1 s)) = Suc (length (localities (h s)))"
      using eq by simp
    have "unat (i + 1) < length (localities (?h1 s))"
      unfolding len using lt unat_succ_le [of i] by linarith
    with IH [OF run] eq show False by blast
  qed
qed

lemma push_localities_overflow:
  assumes "push_localities t s i h = Some y"
  shows "\<not> (t \<noteq> s \<and> 2 ^ 32 \<le> length (localities (h s)))"
proof (rule push_localities.raw_induct
    [where P = "\<lambda>t s i h y. \<not> (t \<noteq> s \<and> 2 ^ 32 \<le> length (localities (h s)))", OF _ assms])
  fix f :: "addr \<Rightarrow> addr \<Rightarrow> 32 word \<Rightarrow> ('a, 'b, 'c, 'd) store \<Rightarrow> ('a, 'b, 'c, 'd) store option"
  fix t s :: addr and i :: "32 word" and h y :: "('a, 'b, 'c, 'd) store"
  let ?h1 = "h(t := (h t)\<lparr>localities := localities (h t) @ [localities (h s) ! unat i]\<rparr>)"
  assume IH: "\<And>t s i h y. f t s i h = Some y \<Longrightarrow> \<not> (t \<noteq> s \<and> 2 ^ 32 \<le> length (localities (h s)))"
    and step: "(if unat i < length (localities (h s)) then f t s (i + 1) ?h1 else Some h) = Some y"
  show "\<not> (t \<noteq> s \<and> 2 ^ 32 \<le> length (localities (h s)))"
  proof
    assume a: "t \<noteq> s \<and> 2 ^ 32 \<le> length (localities (h s))"
    from a have ne: "t \<noteq> s" and big: "2 ^ 32 \<le> length (localities (h s))" by blast+
    have lt: "unat i < length (localities (h s))"
      using big unat_less_range [of i] by linarith
    from lt step have run: "f t s (i + 1) ?h1 = Some y" by simp
    have same: "?h1 s = h s" using ne by simp
    from IH [OF run] have "\<not> (t \<noteq> s \<and> 2 ^ 32 \<le> length (localities (?h1 s)))" .
    then show False unfolding same using ne big by blast
  qed
qed


lemma guard_push_localities:
  "(if length (localities (h s)) \<noteq> 0 then push_localities t s 0 h else Some h)
     = push_localities t s 0 h"
proof (cases "length (localities (h s)) = 0")
  case True
  then have "push_localities t s 0 h = Some h"
    by (subst push_localities.simps) simp
  with True show ?thesis by simp
next
  case False
  then show ?thesis by simp
qed

lemma guard_push_groups:
  "(if length (groups (h s)) \<noteq> 0 then push_groups t s 0 h else Some h) = push_groups t s 0 h"
proof (cases "length (groups (h s)) = 0")
  case True
  then have "push_groups t s 0 h = Some h"
    by (subst push_groups.simps) simp
  with True show ?thesis by simp
next
  case False
  then show ?thesis by simp
qed

lemma copy_members_loops:
  "copy_members t s h
     = Option.bind
         (push_localities t s 0
            (let h = (if analyzedLoci (h s) \<noteq> None
                      then h(t := (h t)\<lparr>analyzedLoci := analyzedLoci (h s)\<rparr>) else h)
             in (if analyzedSequences (h s) \<noteq> None
                 then h(t := (h t)\<lparr>analyzedSequences := analyzedSequences (h s)\<rparr>) else h)))
         (push_groups t s 0)"
  unfolding copy_members_def Let_def guard_push_localities guard_push_groups ..

lemma copy_members_other:
  assumes ne: "t \<noteq> s"
    and bg: "length (groups (h s)) < 2 ^ 32" and bl: "length (localities (h s)) < 2 ^ 32"
  shows "copy_members t s h
           = Some (h(t := \<lparr>analyzedLoci = (if analyzedLoci (h s) \<noteq> None then analyzedLoci (h s)
                                            else analyzedLoci (h t)),
                            analyzedSequences = (if analyzedSequences (h s) \<noteq> None
                                                 then analyzedSequences (h s)
                                                 else analyzedSequences (h t)),
                            localities = localities (h t) @ localities (h s),
                            groups = groups (h t) @ groups (h s)\<rparr>))"
proof -
  define h2 where "h2 = (let h = (if analyzedLoci (h s) \<noteq> None
                      then h(t := (h t)\<lparr>analyzedLoci := analyzedLoci (h s)\<rparr>) else h)
             in (if analyzedSequences (h s) \<noteq> None
                 then h(t := (h t)\<lparr>analyzedSequences := analyzedSequences (h s)\<rparr>) else h))"
  have s2: "h2 s = h s" using ne by (simp add: h2_def Let_def)
  have t2: "h2 t = (h t)\<lparr>analyzedLoci := (if analyzedLoci (h s) \<noteq> None then analyzedLoci (h s)
                                            else analyzedLoci (h t)),
                          analyzedSequences := (if analyzedSequences (h s) \<noteq> None
                                                 then analyzedSequences (h s)
                                                 else analyzedSequences (h t))\<rparr>"
    using ne by (simp add: h2_def Let_def)
  have o2: "h2 x = h x" if "x \<noteq> t" for x using that by (simp add: h2_def Let_def)
  define h3 where "h3 = h2(t := (h2 t)\<lparr>localities := localities (h2 t) @ drop (unat (0 :: 32 word)) (localities (h2 s))\<rparr>)"
  have l: "push_localities t s 0 h2 = Some h3"
    unfolding h3_def using ne bl by (intro push_localities_other) (simp_all add: s2)
  have s3: "h3 s = h s" using ne by (simp add: h3_def s2)
  have g: "push_groups t s 0 h3
             = Some (h3(t := (h3 t)\<lparr>groups := groups (h3 t) @ drop (unat (0 :: 32 word)) (groups (h3 s))\<rparr>))"
    using ne bg by (intro push_groups_other) (simp_all add: s3)
  have "copy_members t s h = Option.bind (push_localities t s 0 h2) (push_groups t s 0)"
    unfolding copy_members_loops h2_def ..
  also have "\<dots> = Some (h3(t := (h3 t)\<lparr>groups := groups (h3 t) @ drop (unat (0 :: 32 word)) (groups (h3 s))\<rparr>))"
    unfolding l using g by simp
  also have "h3(t := (h3 t)\<lparr>groups := groups (h3 t) @ drop (unat (0 :: 32 word)) (groups (h3 s))\<rparr>)
      = h(t := \<lparr>analyzedLoci = (if analyzedLoci (h s) \<noteq> None then analyzedLoci (h s)
                                            else analyzedLoci (h t)),
                            analyzedSequences = (if analyzedSequences (h s) \<noteq> None
                                                 then analyzedSequences (h s)
                                                 else analyzedSequences (h t)),
                            localities = localities (h t) @ localities (h s),
                            groups = groups (h t) @ groups (h s)\<rparr>)"
    unfolding s3 unfolding h3_def s2 t2 by (rule ext) (simp add: o2)
  finally show ?thesis .
qed

lemma DataSet_copy_other:
  assumes "c \<noteq> s"
    and "length (groups (h s)) < 2 ^ 32" and "length (localities (h s)) < 2 ^ 32"
  shows "DataSet_copy c s h = Some (h(c := h s))"
proof -
  let ?h0 = "h(c := DataSet_new)"
  have s0: "?h0 s = h s" using assms(1) by simp
  have r: "\<lparr>analyzedLoci = (if analyzedLoci (h s) \<noteq> None then analyzedLoci (h s)
                             else analyzedLoci (?h0 c)),
            analyzedSequences = (if analyzedSequences (h s) \<noteq> None then analyzedSequences (h s)
                                 else analyzedSequences (?h0 c)),
            localities = localities (?h0 c) @ localities (h s),
            groups = groups (?h0 c) @ groups (h s)\<rparr> = h s"
    by (cases "h s") (simp add: DataSet_new_def)
  have "DataSet_copy c s h = copy_members c s ?h0"
    by (simp add: DataSet_copy_def)
  also have "\<dots> = Some (?h0(c := h s))"
  proof -
    from assms have b0: "length (groups (?h0 s)) < 2 ^ 32" "length (localities (?h0 s)) < 2 ^ 32"
      by simp_all
    from copy_members_other [where t = c and s = s and h = "?h0", OF assms(1) b0]
    show ?thesis unfolding s0 r .
  qed
  finally show ?thesis by simp
qed

lemma copy_members_self:
  assumes "groups (h d) \<noteq> [] \<or> localities (h d) \<noteq> []"
  shows "copy_members d d h = None"
proof (rule ccontr)
  assume "copy_members d d h \<noteq> None"
  then obtain y where y: "copy_members d d h = Some y" by blast
  define h2 where "h2 = (let h = (if analyzedLoci (h d) \<noteq> None
                      then h(d := (h d)\<lparr>analyzedLoci := analyzedLoci (h d)\<rparr>) else h)
             in (if analyzedSequences (h d) \<noteq> None
                 then h(d := (h d)\<lparr>analyzedSequences := analyzedSequences (h d)\<rparr>) else h))"
  have h2: "h2 = h" by (simp add: h2_def Let_def)
  from y have "Option.bind (push_localities d d 0 h) (push_groups d d 0) = Some y"
    unfolding copy_members_loops h2_def [symmetric] h2 .
  then obtain h3 where l: "push_localities d d 0 h = Some h3" and g: "push_groups d d 0 h3 = Some y"
    by (auto simp: bind_eq_Some_conv)
  from push_localities_self [OF l] have le: "localities (h d) = []" by simp
  with l have "h3 = h" by (subst (asm) push_localities.simps) simp
  with push_groups_self [OF g] have "groups (h d) = []" by simp
  with le assms show False by simp
qed

lemma copy_members_overflow:
  assumes "t \<noteq> s" and "2 ^ 32 \<le> length (groups (h s)) \<or> 2 ^ 32 \<le> length (localities (h s))"
  shows "copy_members t s h = None"
proof (rule ccontr)
  assume "copy_members t s h \<noteq> None"
  then obtain y where y: "copy_members t s h = Some y" by blast
  define h2 where "h2 = (let h = (if analyzedLoci (h s) \<noteq> None
                      then h(t := (h t)\<lparr>analyzedLoci := analyzedLoci (h s)\<rparr>) else h)
             in (if analyzedSequences (h s) \<noteq> None
                 then h(t := (h t)\<lparr>analyzedSequences := analyzedSequences (h s)\<rparr>) else h))"
  have s2: "h2 s = h s" using assms(1) by (simp add: h2_def Let_def)
  from y have "Option.bind (push_localities t s 0 h2) (push_groups t s 0) = Some y"
    unfolding copy_members_loops h2_def [symmetric] .
  then obtain h3 where l: "push_localities t s 0 h2 = Some h3" and g: "push_groups t s 0 h3 = Some y"
    by (auto simp: bind_eq_Some_conv)
  from push_localities_overflow [OF l] assms(1) have bl: "length (localities (h s)) < 2 ^ 32"
    unfolding s2 by simp
  from l have "h3 = h2(t := (h2 t)\<lparr>localities := localities (h2 t) @ drop (unat (0 :: 32 word)) (localities (h2 s))\<rparr>)"
    using push_localities_other [of t s h2 0] assms(1) bl unfolding s2 by simp
  then have s3: "h3 s = h s" using assms(1) s2 by simp
  from push_groups_overflow [OF g] assms(1) have "length (groups (h s)) < 2 ^ 32"
    unfolding s3 by simp
  with bl assms(2) show False by simp
qed

text \<open>
  Claim C9. When the source \<open>s\<close> is another object than the target \<open>d\<close> and has fewer
  than \<open>2 ^ 32\<close> groups and fewer than \<open>2 ^ 32\<close> localities, the assignment \<open>d = s\<close>
  returns and keeps what \<open>d\<close> holds: afterwards the groups of \<open>d\<close> are its previous
  groups followed by the copies of the groups of \<open>s\<close>, and likewise the localities, and
  \<open>s\<close> is as before. The copy construction from \<open>s\<close>, at an address \<open>c\<close>, gives a copy
  of \<open>s\<close>; when \<open>d\<close> had a group or a locality, the assigned \<open>d\<close> differs from it.
\<close>

theorem DataSet_assign_appends:
  assumes "d \<noteq> s" and "c \<noteq> s"
    and "length (groups (h s)) < 2 ^ 32" and "length (localities (h s)) < 2 ^ 32"
  shows "\<exists>h' h''. DataSet_assign d s h = Some h' \<and> DataSet_copy c s h = Some h''
     \<and> groups (h' d) = groups (h d) @ groups (h s)
     \<and> length (groups (h' d)) = length (groups (h d)) + length (groups (h s))
     \<and> localities (h' d) = localities (h d) @ localities (h s)
     \<and> length (localities (h' d)) = length (localities (h d)) + length (localities (h s))
     \<and> h' s = h s
     \<and> h'' c = h s
     \<and> (groups (h d) \<noteq> [] \<or> localities (h d) \<noteq> [] \<longrightarrow> h' d \<noteq> h'' c)"
proof -
  let ?h' = "h(d := \<lparr>analyzedLoci = (if analyzedLoci (h s) \<noteq> None then analyzedLoci (h s)
                                            else analyzedLoci (h d)),
                            analyzedSequences = (if analyzedSequences (h s) \<noteq> None
                                                 then analyzedSequences (h s)
                                                 else analyzedSequences (h d)),
                            localities = localities (h d) @ localities (h s),
                            groups = groups (h d) @ groups (h s)\<rparr>)"
  have a: "DataSet_assign d s h = Some ?h'"
    unfolding DataSet_assign_def using assms(1,3,4) by (rule copy_members_other)
  have c: "DataSet_copy c s h = Some (h(c := h s))"
    using assms(2,3,4) by (rule DataSet_copy_other)
  have g: "groups (?h' d) = groups (h d) @ groups (h s)"
    and l: "localities (?h' d) = localities (h d) @ localities (h s)"
    and s: "?h' s = h s" and cc: "(h(c := h s)) c = h s"
    using assms(1) by simp_all
  have "?h' d \<noteq> (h(c := h s)) c" if "groups (h d) \<noteq> [] \<or> localities (h d) \<noteq> []"
  proof
    assume "?h' d = (h(c := h s)) c"
    then have e: "?h' d = h s" unfolding cc .
    from arg_cong [OF e, where f = groups] arg_cong [OF e, where f = localities]
    have "groups (h d) @ groups (h s) = groups (h s)"
      and "localities (h d) @ localities (h s) = localities (h s)"
      by simp_all
    with that show False by simp
  qed
  with a c g l s cc show ?thesis
    by (intro exI [of _ ?h'] exI [of _ "h(c := h s)"] conjI) simp_all
qed

text \<open>
  At the example store: \<open>d\<close> at 0 has the groups 1 and 20 and the locality Lyon, \<open>s\<close> at
  1 has the group 3; the copy is constructed at 2.
\<close>

theorem DataSet_assign_appends_witness:
  "(0 :: addr) \<noteq> 1 \<and> (2 :: addr) \<noteq> 1
   \<and> length (groups (example_store 1)) < 2 ^ 32 \<and> length (localities (example_store 1)) < 2 ^ 32
   \<and> (\<exists>h' h''. DataSet_assign 0 1 example_store = Some h'
        \<and> DataSet_copy 2 1 example_store = Some h''
        \<and> map group_id (groups (example_store 0)) = [1, 20]
        \<and> map group_id (groups (h' 0)) = [1, 20, 3]
        \<and> localities (h' 0) = [''Lyon'']
        \<and> map group_id (groups (h' 1)) = [3]
        \<and> map group_id (groups (h'' 2)) = [3]
        \<and> localities (h'' 2) = []
        \<and> h' 0 \<noteq> h'' 2)"
proof -
  have ne: "(0 :: addr) \<noteq> 1" "(2 :: addr) \<noteq> 1" by simp_all
  have b: "length (groups (example_store 1)) < 2 ^ 32"
    "length (localities (example_store 1)) < 2 ^ 32"
    by (simp_all add: example_store_def example_source_DataSet_def)
  have v: "map group_id (groups (example_store 0)) = [1, 20]"
    "localities (example_store 0) = [''Lyon'']"
    "map group_id (groups (example_store 1)) = [3]"
    "localities (example_store 1) = []"
    by (simp_all add: example_store_def example_DataSet_def example_source_DataSet_def)
  from DataSet_assign_appends [where d = 0 and s = 1 and c = 2 and h = example_store, OF ne b]
  obtain h' h'' where r: "DataSet_assign 0 1 example_store = Some h'"
    "DataSet_copy 2 1 example_store = Some h''"
    "groups (h' 0) = groups (example_store 0) @ groups (example_store 1)"
    "localities (h' 0) = localities (example_store 0) @ localities (example_store 1)"
    "h' 1 = example_store 1" "h'' 2 = example_store 1"
    "groups (example_store 0) \<noteq> [] \<or> localities (example_store 0) \<noteq> [] \<longrightarrow> h' 0 \<noteq> h'' 2"
    by blast
  from v(2) r(7) have d: "h' 0 \<noteq> h'' 2" by simp
  have "map group_id (groups (h' 0)) = [1, 20, 3]" "localities (h' 0) = [''Lyon'']"
    "map group_id (groups (h' 1)) = [3]" "map group_id (groups (h'' 2)) = [3]"
    "localities (h'' 2) = []"
    unfolding r(3,4,5,6) using v by simp_all
  with ne b r(1,2) v(1) d show ?thesis
    by (intro conjI exI [of _ h'] exI [of _ h''])
qed

text \<open>
  The claim does not hold for every source. The assignment of the data set at 0 to
  itself does not return: every turn of the loop over the localities makes the vector
  it measures one longer. Nor does the assignment from a source with \<open>2 ^ 32\<close> groups:
  the counter never reaches the size.
\<close>

theorem DataSet_assign_no_return:
  "map group_id (groups (example_store 0)) = [1, 20]
   \<and> DataSet_assign 0 0 example_store = None
   \<and> length (groups (crowded_store 1)) = 2 ^ 32
   \<and> DataSet_assign 0 1 crowded_store = None"
proof -
  have v: "map group_id (groups (example_store 0)) = [1, 20]"
    by (simp add: example_store_def example_DataSet_def)
  then have "groups (example_store 0) \<noteq> [] \<or> localities (example_store 0) \<noteq> []" by auto
  then have a: "DataSet_assign 0 0 example_store = None"
    unfolding DataSet_assign_def by (rule copy_members_self)
  have n: "length (groups (crowded_store 1)) = 2 ^ 32"
    by (simp add: crowded_store_def)
  have ne: "(0 :: addr) \<noteq> 1" by simp
  from n have "2 ^ 32 \<le> length (groups (crowded_store 1))
      \<or> 2 ^ 32 \<le> length (localities (crowded_store 1))" by simp
  with ne have "DataSet_assign 0 1 crowded_store = None"
    unfolding DataSet_assign_def by (rule copy_members_overflow)
  with v a n show ?thesis by (intro conjI)
qed

section \<open>Properties of the permutation and extraction operations\<close>

lemma bindE_Inr [simp]: "bindE (Inr x) f = f x"
  by (simp add: bindE_def)

lemma bindE_Inl [simp]: "bindE (Inl e) f = Inl e"
  by (simp add: bindE_def)

lemma foldE_append: "foldE f (xs @ ys) s = bindE (foldE f xs s) (foldE f ys)"
  by (induction xs arbitrary: s) (auto simp: bindE_def split: sum.splits)

lemma foldE_upt_nth:
  "(\<And>i s. i < length xs \<Longrightarrow> body i s = f (xs ! i) s)
     \<Longrightarrow> foldE body [0..<length xs] s = foldE f xs s"
proof (induction xs arbitrary: s rule: rev_induct)
  case Nil
  show ?case by simp
next
  case (snoc x xs)
  have "foldE body [0..<length xs] s = foldE f xs s"
  proof (rule snoc.IH)
    fix i s assume "i < length xs"
    then show "body i s = f (xs ! i) s"
      using snoc.prems [of i s] by (simp add: nth_append)
  qed
  moreover have "body (length xs) t = f x t" for t
    using snoc.prems [of "length xs" t] by simp
  ultimately show ?case
    by (simp add: foldE_append bindE_def split: sum.splits)
qed

lemma nthE_in_range [simp]: "i < length xs \<Longrightarrow> nthE xs i = Inr (xs ! i)"
  by (simp add: nthE_def)

lemma getGroupId_in_range: "i < length (records c) \<Longrightarrow> getGroupId c i = Inr (snd (records c ! i))"
  by (simp add: getGroupId_def)

lemma multilocusGenotype_in_range:
  "i < length (records c) \<Longrightarrow> multilocusGenotype c i = Inr (fst (records c ! i))"
  by (simp add: multilocusGenotype_def)

lemma mset_permute_by: "mset (permute_by s xs) = mset xs"
proof (induction xs arbitrary: s)
  case Nil
  show ?case by simp
next
  case (Cons x xs)
  let ?p = "permute_by (s div Suc (length xs)) xs"
  let ?i = "s mod Suc (length xs)"
  have "mset (take ?i ?p) + mset (drop ?i ?p) = mset ?p"
    by (metis append_take_drop_id mset_append)
  then show ?case by (simp add: Let_def Cons.IH)
qed

lemma permute_by_reaches_every_permutation:
  "mset ys = mset xs \<Longrightarrow> \<exists>s. permute_by s xs = ys"
proof (induction xs arbitrary: ys)
  case Nil
  then show ?case by simp
next
  case (Cons x xs)
  from Cons.prems have "x \<in> set ys"
    by (metis list.set_intros(1) set_mset_mset)
  then obtain i where i: "i < length ys" and yi: "ys ! i = x"
    by (auto simp: in_set_conv_nth)
  let ?ys' = "take i ys @ drop (Suc i) ys"
  have split: "ys = take i ys @ x # drop (Suc i) ys"
    using id_take_nth_drop [OF i] yi by simp
  then have "mset ys = add_mset x (mset ?ys')"
    by (metis mset.simps(2) mset_append union_mset_add_mset_right)
  with Cons.prems have "mset ?ys' = mset xs" by simp
  from Cons.IH [OF this] obtain s' where s': "permute_by s' xs = ?ys'"
    by blast
  let ?n = "Suc (length xs)"
  from Cons.prems have "length ys = ?n"
    by (metis length_Cons size_mset)
  with i have lt: "i < ?n" by simp
  have ti: "take i ?ys' = take i ys" and di: "drop i ?ys' = drop (Suc i) ys"
    using i by simp_all
  have md: "(i + n * s') mod n = i \<and> (i + n * s') div n = s'" if "i < n" for n
    using that by simp
  from md [OF lt] have m: "(i + ?n * s') mod ?n = i" and d: "(i + ?n * s') div ?n = s'"
    by blast+
  have "permute_by (i + ?n * s') (x # xs) = take i ?ys' @ x # drop i ?ys'"
    by (simp only: permute_by.simps Let_def m d s')
  also have "\<dots> = ys"
    unfolding ti di using split by simp
  finally show ?case by blast
qed

lemma shuffle_reaches_every_permutation:
  "mset ys = mset xs \<Longrightarrow> \<exists>g. fst (shuffle xs g) = ys"
proof -
  assume "mset ys = mset xs"
  then obtain s where "permute_by s xs = ys"
    using permute_by_reaches_every_permutation by blast
  then have "fst (shuffle xs [s]) = ys"
    by (simp add: shuffle_def)
  then show ?thesis ..
qed

lemma mset_shuffle: "mset (fst (shuffle xs g)) = mset xs"
  by (simp add: shuffle_def mset_permute_by split: list.splits)

lemma length_shuffle: "length (fst (shuffle xs g)) = length xs"
  using mset_shuffle [of xs g] by (metis size_mset)

lemma length_shuffle_all: "length (fst (shuffle_all vs g)) = length vs"
  by (induction vs arbitrary: g) (simp_all add: split_beta Let_def)

lemma mset_shuffle_all:
  "j < length vs \<Longrightarrow> mset (fst (shuffle_all vs g) ! j) = mset (vs ! j)"
proof (induction vs arbitrary: g j)
  case Nil
  then show ?case by simp
next
  case (Cons v vs)
  show ?case
  proof (cases j)
    case 0
    then show ?thesis by (simp add: split_beta Let_def mset_shuffle)
  next
    case (Suc j')
    with Cons.prems have "j' < length vs" by simp
    from Cons.IH [OF this] Suc show ?thesis by (simp add: split_beta Let_def)
  qed
qed

lemma collect_group_ids:
  "foldE (\<lambda>r grps. Inr (grps @ [snd r])) rs acc = Inr (acc @ map snd rs)"
  by (induction rs arbitrary: acc) simp_all

lemma setGroupId_loop:
  assumes "length grps = length (records c)" and "m \<le> length (records c)"
  shows "foldE (\<lambda>i p. bindE (nthE grps i) (\<lambda>gid. setGroupId p i gid)) [0..<m] c
           = Inr (c\<lparr>records := map2 (\<lambda>r gid. (fst r, gid)) (take m (records c)) (take m grps)
                                 @ drop m (records c)\<rparr>)"
  using assms(2)
proof (induction m)
  case 0
  show ?case by simp
next
  case (Suc m)
  let ?rs = "records c"
  let ?A = "map2 (\<lambda>r gid. (fst r, gid)) (take m ?rs) (take m grps)"
  from Suc.prems have m: "m < length ?rs" by simp
  with assms(1) have mg: "m < length grps" by simp
  have lenA: "length ?A = m" using m mg by simp
  have upd: "(?A @ drop m ?rs)[m := (fst ((?A @ drop m ?rs) ! m), grps ! m)]
               = map2 (\<lambda>r gid. (fst r, gid)) (take (Suc m) ?rs) (take (Suc m) grps) @ drop (Suc m) ?rs"
    using m mg lenA
    by (simp add: list_update_append nth_append take_Suc_conv_app_nth
          Cons_nth_drop_Suc [symmetric] del: length_map length_zip)
  from Suc.IH m have "foldE (\<lambda>i p. bindE (nthE grps i) (\<lambda>gid. setGroupId p i gid)) [0..<m] c
           = Inr (c\<lparr>records := ?A @ drop m ?rs\<rparr>)" by simp
  then show ?case
    using m mg upd by (simp add: foldE_append setGroupId_def size_PMGC_def)
qed

lemma map_snd_regroup:
  "length xs = length ys \<Longrightarrow> map snd (map2 (\<lambda>r gid. (fst r, gid)) xs ys) = ys"
  by (induction xs ys rule: list_induct2) simp_all

lemma map_fst_regroup:
  "length xs = length ys \<Longrightarrow> map fst (map2 (\<lambda>r gid. (fst r, gid)) xs ys) = map fst xs"
  by (induction xs ys rule: list_induct2) simp_all

text \<open>
  Claim C3. For every collection and every state of the generator, \<^verbatim>\<open>permuteMultiG\<close>
  returns a collection with as many records as the input, and the multiset of the group
  ids of its records is that of the input. The genotype vectors stay where they are and
  the table of the groups is unchanged.
\<close>

theorem permuteMultiG_preserves_group_ids:
  "\<exists>c' g'. permuteMultiG c g = Inr (c', g')
     \<and> length (records c') = length (records c)
     \<and> mset (map snd (records c')) = mset (map snd (records c))
     \<and> map fst (records c') = map fst (records c)
     \<and> groupsNames c' = groupsNames c"
proof -
  let ?rs = "records c"
  obtain grps g' where sh: "shuffle (map snd ?rs) g = (grps, g')"
    by (cases "shuffle (map snd ?rs) g")
  have ms: "mset grps = mset (map snd ?rs)"
    using mset_shuffle [of "map snd ?rs" g] sh by simp
  then have len: "length grps = length ?rs"
    by (metis size_mset length_map)
  have l1: "foldE (\<lambda>i grps. bindE (getGroupId c i) (\<lambda>gid. Inr (grps @ [gid]))) [0..<length ?rs] []
              = Inr (map snd ?rs)"
    using foldE_upt_nth [of ?rs "\<lambda>i grps. bindE (getGroupId c i) (\<lambda>gid. Inr (grps @ [gid]))"
        "\<lambda>r grps. Inr (grps @ [snd r])" "[]"]
    by (simp add: getGroupId_in_range collect_group_ids)
  let ?c' = "c\<lparr>records := map2 (\<lambda>r gid. (fst r, gid)) ?rs grps\<rparr>"
  have l2: "foldE (\<lambda>i p. bindE (nthE grps i) (\<lambda>gid. setGroupId p i gid)) [0..<length ?rs] c = Inr ?c'"
    using setGroupId_loop [OF len, of "length ?rs"] len by simp
  have run: "permuteMultiG c g = Inr (?c', g')"
    by (simp add: permuteMultiG_def Let_def size_PMGC_def l1 sh l2)
  have r': "records ?c' = map2 (\<lambda>r gid. (fst r, gid)) ?rs grps"
    by simp
  have snd': "map snd (records ?c') = grps"
    by (simp only: r' map_snd_regroup [OF len [symmetric]])
  have fst': "map fst (records ?c') = map fst ?rs"
    by (simp only: r' map_fst_regroup [OF len [symmetric]])
  have "length (records ?c') = length ?rs"
    using len by simp
  moreover have "groupsNames ?c' = groupsNames c"
    by simp
  ultimately show ?thesis
    using run snd' fst' ms by (intro exI [of _ ?c'] exI [of _ g']) (simp only: simp_thms)
qed

theorem permuteMultiG_preserves_group_ids_witness:
  "\<exists>c' g'. permuteMultiG example_pmgc [3] = Inr (c', g') \<and> map snd (records c') = [1, 3, 2]"
proof -
  have e: "map_sum id (\<lambda>(c, g). map snd (records c)) (permuteMultiG example_pmgc [3]) = Inr [1, 3, 2]"
    by code_simp
  from permuteMultiG_preserves_group_ids [of example_pmgc "[3]"]
  obtain c' g' where c': "permuteMultiG example_pmgc [3] = Inr (c', g')"
    by blast
  with e have "map snd (records c') = [1, 3, 2]"
    by simp
  with c' show ?thesis by (intro exI [of _ c'] exI [of _ g'] conjI)
qed

lemma addMultilocusGenotype_records [simp]:
  "records (addMultilocusGenotype c mg gid) = records c @ [(mg, gid)]"
  by (simp add: addMultilocusGenotype_def)

lemma addMultilocusGenotype_dom [simp]:
  "dom (groupsNames (addMultilocusGenotype c mg gid)) = insert gid (dom (groupsNames c))"
  by (auto simp: addMultilocusGenotype_def split: option.splits)

lemma extractGroup_foreach:
  "extractGroup pmgc grps g sub =
     foldE (\<lambda>r sub. if snd r |\<in>| grps
                     then (if snd r = g then Inr (addMultilocusGenotype sub (fst r) (snd r))
                           else Inr sub)
                     else Inr sub) (records pmgc) sub"
  unfolding extractGroup_def size_PMGC_def
  by (rule foldE_upt_nth) (simp add: getGroupId_in_range multilocusGenotype_in_range)

lemma extractGroup_result:
  "\<exists>sub'. foldE (\<lambda>r sub. if snd r |\<in>| grps
                     then (if snd r = g then Inr (addMultilocusGenotype sub (fst r) (snd r))
                           else Inr sub)
                     else Inr sub) rs sub = Inr sub'
     \<and> records sub' = records sub @ filter (\<lambda>r. snd r |\<in>| grps \<and> snd r = g) rs
     \<and> dom (groupsNames sub') = dom (groupsNames sub)
            \<union> snd ` set (filter (\<lambda>r. snd r |\<in>| grps \<and> snd r = g) rs)"
proof (induction rs arbitrary: sub)
  case Nil
  show ?case by simp
next
  case (Cons r rs)
  show ?case
  proof (cases "snd r |\<in>| grps \<and> snd r = g")
    case True
    from Cons.IH [of "addMultilocusGenotype sub (fst r) (snd r)"] True show ?thesis
      by auto
  next
    case False
    from Cons.IH [of sub] False show ?thesis by auto
  qed
qed

lemma extractGroups_loop:
  "\<exists>sub'. foldE (extractGroup pmgc grps) gs sub = Inr sub'
     \<and> records sub' = records sub
          @ concat (map (\<lambda>g. filter (\<lambda>r. snd r |\<in>| grps \<and> snd r = g) (records pmgc)) gs)
     \<and> dom (groupsNames sub') = dom (groupsNames sub)
          \<union> snd ` set (concat (map (\<lambda>g. filter (\<lambda>r. snd r |\<in>| grps \<and> snd r = g) (records pmgc)) gs))"
proof (induction gs arbitrary: sub)
  case Nil
  show ?case by simp
next
  case (Cons g gs)
  from extractGroup_result [of grps g "records pmgc" sub]
  obtain s1 where s1: "extractGroup pmgc grps g sub = Inr s1"
    and r1: "records s1 = records sub @ filter (\<lambda>r. snd r |\<in>| grps \<and> snd r = g) (records pmgc)"
    and n1: "dom (groupsNames s1) = dom (groupsNames sub)
               \<union> snd ` set (filter (\<lambda>r. snd r |\<in>| grps \<and> snd r = g) (records pmgc))"
    unfolding extractGroup_foreach by blast
  from Cons.IH [of s1] obtain s2 where s2: "foldE (extractGroup pmgc grps) gs s1 = Inr s2"
    and r2: "records s2 = records s1
          @ concat (map (\<lambda>g. filter (\<lambda>r. snd r |\<in>| grps \<and> snd r = g) (records pmgc)) gs)"
    and n2: "dom (groupsNames s2) = dom (groupsNames s1)
          \<union> snd ` set (concat (map (\<lambda>g. filter (\<lambda>r. snd r |\<in>| grps \<and> snd r = g) (records pmgc)) gs))"
    by blast
  have "foldE (extractGroup pmgc grps) (g # gs) sub = Inr s2"
    using s1 s2 by simp
  moreover have "records s2 = records sub
          @ concat (map (\<lambda>g. filter (\<lambda>r. snd r |\<in>| grps \<and> snd r = g) (records pmgc)) (g # gs))"
    using r1 r2 by simp
  moreover have "dom (groupsNames s2) = dom (groupsNames sub)
          \<union> snd ` set (concat (map (\<lambda>g. filter (\<lambda>r. snd r |\<in>| grps \<and> snd r = g) (records pmgc)) (g # gs)))"
    unfolding n2 n1 by (simp add: image_Un Un_assoc)
  ultimately show ?case by blast
qed

lemma copy_names_loop:
  assumes "set ids \<subseteq> dom (groupsNames pmgc)" and "set ids \<subseteq> dom (groupsNames p)"
  shows "\<exists>p'. foldE (\<lambda>gid p. bindE (getGroupName pmgc gid) (\<lambda>name. setGroupName p gid name)) ids p = Inr p'
           \<and> records p' = records p
           \<and> dom (groupsNames p') = dom (groupsNames p)"
  using assms
proof (induction ids arbitrary: p)
  case Nil
  show ?case by simp
next
  case (Cons x ids)
  from Cons.prems obtain n m where n: "groupsNames pmgc x = Some n" and m: "groupsNames p x = Some m"
    by auto
  let ?name = "if n = [] then toString x else n"
  let ?p1 = "p\<lparr>groupsNames := (groupsNames p)(x \<mapsto> ?name)\<rparr>"
  have step: "bindE (getGroupName pmgc x) (\<lambda>name. setGroupName p x name) = Inr ?p1"
    using n m by (simp add: getGroupName_def setGroupName_def)
  have d1: "dom (groupsNames ?p1) = dom (groupsNames p)"
    using m by auto
  have r1: "records ?p1 = records p"
    by simp
  have "set ids \<subseteq> dom (groupsNames pmgc)" "set ids \<subseteq> dom (groupsNames ?p1)"
    using Cons.prems unfolding d1 by simp_all
  from Cons.IH [OF this] obtain p' where p':
    "foldE (\<lambda>gid p. bindE (getGroupName pmgc gid) (\<lambda>name. setGroupName p gid name)) ids ?p1 = Inr p'"
    "records p' = records ?p1"
    "dom (groupsNames p') = dom (groupsNames ?p1)"
    by blast
  have "foldE (\<lambda>gid p. bindE (getGroupName pmgc gid) (\<lambda>name. setGroupName p gid name)) (x # ids) p = Inr p'"
    unfolding foldE.simps step bindE_Inr by (rule p'(1))
  moreover have "records p' = records p"
    using p'(2) r1 by (rule trans)
  moreover have "dom (groupsNames p') = dom (groupsNames p)"
    using p'(3) d1 by (rule trans)
  ultimately show ?case by blast
qed

lemma updateGroupNames_ok:
  assumes "finite ids" and "ids \<subseteq> dom (groupsNames pmgc)" and "ids \<subseteq> dom (groupsNames p)"
  shows "\<exists>p'. updateGroupNames pmgc ids p = Inr p' \<and> records p' = records p
           \<and> dom (groupsNames p') = dom (groupsNames p)"
  unfolding updateGroupNames_def
  using assms by (intro copy_names_loop) simp_all

lemma mset_concat_filter_groups:
  "distinct gs \<Longrightarrow>
     mset (concat (map (\<lambda>g. filter (\<lambda>r. P r \<and> f r = g) rs) gs))
       = mset (filter (\<lambda>r. P r \<and> f r \<in> set gs) rs)"
proof (induction gs)
  case Nil
  show ?case by simp
next
  case (Cons g gs)
  then have g: "g \<notin> set gs" and d: "distinct gs" by simp_all
  have "mset (filter (\<lambda>r. P r \<and> f r \<in> set (g # gs)) rs)
          = mset (filter (\<lambda>r. P r \<and> f r = g) rs) + mset (filter (\<lambda>r. P r \<and> f r \<in> set gs) rs)"
    using g by (induction rs) auto
  with Cons.IH [OF d] show ?case by simp
qed

lemma groupsKnown_iff: "groupsKnown c \<longleftrightarrow> snd ` set (records c) \<subseteq> dom (groupsNames c)"
  by (auto simp: groupsKnown_def list_all_iff)

text \<open>
  Claim C5. \<^verbatim>\<open>extractGroups(c, G)\<close> returns a collection whose records all have their
  group id in \<open>G\<close> and are records of \<open>c\<close>, genotype vector and group id together; it
  holds exactly the records of \<open>c\<close> with a group id in \<open>G\<close>, each as often as \<open>c\<close>
  does, and their number is the sum over \<open>g\<close> in \<open>G\<close> of the number of records of \<open>c\<close>
  in group \<open>g\<close>. The group of every record of \<open>c\<close> is in its table of groups, as
  the lookup of the names requires.
\<close>

theorem extractGroups_only_selected:
  assumes "groupsKnown c"
  shows "\<exists>c'. extractGroups c grps = Inr c'
           \<and> (\<forall>r \<in> set (records c'). snd r |\<in>| grps \<and> r \<in> set (records c))
           \<and> mset (records c') = mset (filter (\<lambda>r. snd r |\<in>| grps) (records c))
           \<and> length (records c')
               = (\<Sum>g \<in> fset grps. length (filter (\<lambda>r. snd r = g) (records c)))"
proof -
  let ?gs = "sorted_list_of_fset grps"
  let ?ex = "concat (map (\<lambda>g. filter (\<lambda>r. snd r |\<in>| grps \<and> snd r = g) (records c)) ?gs)"
  have set_gs: "set ?gs = fset grps" and dist: "distinct ?gs"
    by (simp_all add: sorted_list_of_fset.rep_eq)
  from extractGroups_loop [of c grps ?gs PMGC_new]
  obtain sub where sub: "foldE (extractGroup c grps) ?gs PMGC_new = Inr sub"
    and rsub: "records sub = ?ex"
    and nsub: "dom (groupsNames sub) = snd ` set ?ex"
    by (auto simp: PMGC_new_def)
  have ms: "mset ?ex = mset (filter (\<lambda>r. snd r |\<in>| grps) (records c))"
    using mset_concat_filter_groups [OF dist, of "\<lambda>r. snd r |\<in>| grps" snd "records c"] set_gs
    by (simp cong: conj_cong)
  then have set_ex: "set ?ex = set (filter (\<lambda>r. snd r |\<in>| grps) (records c))"
    by (rule mset_eq_setD)
  have k1: "getAllGroupsIds sub \<subseteq> dom (groupsNames c)"
    using assms unfolding getAllGroupsIds_def rsub set_ex groupsKnown_iff by auto
  have k2: "getAllGroupsIds sub \<subseteq> dom (groupsNames sub)"
    unfolding getAllGroupsIds_def rsub nsub by simp
  have "finite (getAllGroupsIds sub)"
    by (simp add: getAllGroupsIds_def)
  from updateGroupNames_ok [OF this k1 k2]
  obtain c' where c': "updateGroupNames c (getAllGroupsIds sub) sub = Inr c'"
    and rc': "records c' = records sub"
    by blast
  have run: "extractGroups c grps = Inr c'"
    using sub c' by (simp add: extractGroups_def)
  have len: "length ?ex = (\<Sum>g \<in> fset grps. length (filter (\<lambda>r. snd r = g) (records c)))"
  proof -
    have "length ?ex = sum_list (map (\<lambda>g. length (filter (\<lambda>r. snd r |\<in>| grps \<and> snd r = g) (records c))) ?gs)"
      by (simp add: length_concat o_def)
    also have "\<dots> = (\<Sum>g \<in> set ?gs. length (filter (\<lambda>r. snd r |\<in>| grps \<and> snd r = g) (records c)))"
      using dist by (simp add: sum_list_distinct_conv_sum_set)
    also have "\<dots> = (\<Sum>g \<in> fset grps. length (filter (\<lambda>r. snd r = g) (records c)))"
      unfolding set_gs by (rule sum.cong) (auto intro: arg_cong [where f = length] filter_cong)
    finally show ?thesis .
  qed
  have sel: "\<forall>r \<in> set (records c'). snd r |\<in>| grps \<and> r \<in> set (records c)"
    unfolding rc' rsub set_ex by simp
  have r: "records c' = ?ex"
    using rc' rsub by (rule trans)
  have ms': "mset (records c') = mset (filter (\<lambda>r. snd r |\<in>| grps) (records c))"
    unfolding r by (rule ms)
  have len': "length (records c') = (\<Sum>g \<in> fset grps. length (filter (\<lambda>r. snd r = g) (records c)))"
    unfolding r by (rule len)
  from run sel ms' len' show ?thesis
    by (intro exI [of _ c'] conjI)
qed

theorem extractGroups_only_selected_witness:
  "groupsKnown example_pmgc
   \<and> (\<exists>c'. extractGroups example_pmgc {|3, 1|} = Inr c'
          \<and> records c' = [([Some (MonoAlleleMonolocusGenotype 7)], 1),
                           ([Some (MonoAlleleMonolocusGenotype 9)], 3)])"
proof -
  have k: "groupsKnown example_pmgc"
    by code_simp
  have e: "map_sum id records (extractGroups example_pmgc {|3, 1|})
             = Inr [([Some (MonoAlleleMonolocusGenotype 7)], 1),
                    ([Some (MonoAlleleMonolocusGenotype 9)], 3)]"
    by code_simp
  from extractGroups_only_selected [OF k, of "{|3, 1|}"]
  obtain c' where c': "extractGroups example_pmgc {|3, 1|} = Inr c'"
    by blast
  with e have "records c' = [([Some (MonoAlleleMonolocusGenotype 7)], 1),
                            ([Some (MonoAlleleMonolocusGenotype 9)], 3)]"
    by simp
  with k c' show ?thesis by blast
qed

section \<open>Allele permutation\<close>

lemma map_upt_update:
  "m < n \<Longrightarrow> (map f [0..<n])[m := v] = map (f(m := v)) [0..<n]"
  by (rule nth_equalityI) (auto simp: nth_list_update)

lemma map_nth_len: "length xs = n \<Longrightarrow> map ((!) xs) [0..<n] = xs"
  using map_nth [of xs] by auto

lemma isMonolocusGenotypeMissing_in_range:
  "j < length mg \<Longrightarrow> isMonolocusGenotypeMissing mg j = Inr (mg ! j = None)"
  by (simp add: isMonolocusGenotypeMissing_def)

lemma alleleIndexAt_Some:
  "j < length mg \<Longrightarrow> mg ! j = Some gt \<Longrightarrow> alleleIndexAt mg j = Inr (getAlleleIndex gt)"
  by (simp add: alleleIndexAt_def deref_def)

lemma pushAlleles_step:
  "j < length mg \<Longrightarrow> pushAlleles mg j al = Inr (al[j := al ! j @ allelesAt mg j])"
  by (cases "mg ! j")
     (simp_all add: pushAlleles_def isMonolocusGenotypeMissing_in_range alleleIndexAt_Some
        allelesAt_def)

lemma pushAlleles_loop:
  assumes "length mg = L" and "length al = L" and "m \<le> L"
  shows "foldE (\<lambda>j al. pushAlleles mg j al) [0..<m] al
           = Inr (map (\<lambda>j. if j < m then al ! j @ allelesAt mg j else al ! j) [0..<L])"
  using assms(3)
proof (induction m)
  case 0
  show ?case using assms(2) by (simp add: map_nth_len)
next
  case (Suc m)
  then have m: "m < L" by simp
  let ?f = "\<lambda>j. if j < m then al ! j @ allelesAt mg j else al ! j"
  have "pushAlleles mg m (map ?f [0..<L]) = Inr ((map ?f [0..<L])[m := al ! m @ allelesAt mg m])"
    using m assms(1) by (simp add: pushAlleles_step)
  also have "(map ?f [0..<L])[m := al ! m @ allelesAt mg m]
               = map (\<lambda>j. if j < Suc m then al ! j @ allelesAt mg j else al ! j) [0..<L]"
    unfolding map_upt_update [OF m] by (rule map_cong) (auto simp: less_Suc_eq)
  finally show ?case
    using Suc.IH m by (simp add: foldE_append)
qed

lemma wellFormed_iff:
  "wellFormed c \<longleftrightarrow> (\<forall>r \<in> set (records c). length (fst r) = getNumberOfLoci c)"
  by (simp add: wellFormed_def list_all_iff)

lemma locusAlleles_Cons:
  "locusAlleles grps j (r # rs)
     = (if snd r |\<in>| grps then allelesAt (fst r) j else []) @ locusAlleles grps j rs"
  by (simp add: locusAlleles_def)

lemma locusAlleles_Nil [simp]: "locusAlleles grps j [] = []"
  by (simp add: locusAlleles_def)

lemma collectAlleles_loop:
  assumes "\<forall>r \<in> set rs. length (fst r) = L" and "length al = L"
  shows "foldE (\<lambda>r al. if snd r |\<in>| grps
                         then foldE (\<lambda>j al. pushAlleles (fst r) j al) [0..<L] al
                         else Inr al) rs al
           = Inr (map (\<lambda>j. al ! j @ locusAlleles grps j rs) [0..<L])"
  using assms
proof (induction rs arbitrary: al)
  case Nil
  then show ?case by (simp add: map_nth_len)
next
  case (Cons r rs)
  let ?al1 = "map (\<lambda>j. al ! j @ (if snd r |\<in>| grps then allelesAt (fst r) j else [])) [0..<L]"
  have step: "(if snd r |\<in>| grps
               then foldE (\<lambda>j al. pushAlleles (fst r) j al) [0..<L] al
               else Inr al) = Inr ?al1"
  proof (cases "snd r |\<in>| grps")
    case True
    from Cons.prems have "length (fst r) = L" by simp
    from pushAlleles_loop [OF this Cons.prems(2), of L] True show ?thesis by simp
  next
    case False
    with Cons.prems(2) show ?thesis by (simp add: map_nth_len)
  qed
  have len1: "length ?al1 = L" by simp
  from Cons.prems have "\<forall>r \<in> set rs. length (fst r) = L" by simp
  from Cons.IH [OF this len1]
  have "foldE (\<lambda>r al. if snd r |\<in>| grps
                         then foldE (\<lambda>j al. pushAlleles (fst r) j al) [0..<L] al
                         else Inr al) rs ?al1
           = Inr (map (\<lambda>j. ?al1 ! j @ locusAlleles grps j rs) [0..<L])" .
  also have "map (\<lambda>j. ?al1 ! j @ locusAlleles grps j rs) [0..<L]
               = map (\<lambda>j. al ! j @ locusAlleles grps j (r # rs)) [0..<L]"
    by (rule map_cong) (simp_all add: locusAlleles_Cons)
  finally show ?case
    using step by simp
qed

lemma collectAlleles_result:
  assumes "wellFormed c"
  shows "collectAlleles c grps
           = Inr (map (\<lambda>j. locusAlleles grps j (records c)) [0..<getNumberOfLoci c])"
proof -
  let ?L = "getNumberOfLoci c"
  have "collectAlleles c grps
          = foldE (\<lambda>r al. if snd r |\<in>| grps
                         then foldE (\<lambda>j al. pushAlleles (fst r) j al) [0..<?L] al
                         else Inr al) (records c) (replicate ?L [])"
    unfolding collectAlleles_def Let_def size_PMGC_def
    by (rule foldE_upt_nth) (simp add: getGroupId_in_range multilocusGenotype_in_range)
  also have "\<dots> = Inr (map (\<lambda>j. replicate ?L [] ! j @ locusAlleles grps j (records c)) [0..<?L])"
    using assms by (intro collectAlleles_loop) (simp_all add: wellFormed_iff)
  also have "map (\<lambda>j. replicate ?L [] ! j @ locusAlleles grps j (records c)) [0..<?L]
               = map (\<lambda>j. locusAlleles grps j (records c)) [0..<?L]"
    by (rule map_cong) simp_all
  finally show ?thesis .
qed

lemma takeAllele_in_range:
  "j < length al \<Longrightarrow> j < length k \<Longrightarrow> k ! j < length (al ! j)
     \<Longrightarrow> takeAllele al j k = Inr (al ! j ! (k ! j), k[j := Suc (k ! j)])"
  by (simp add: takeAllele_def)

lemma setMonolocusGenotype_in_range:
  "j < length t \<Longrightarrow> setMonolocusGenotype t j gt = Inr (t[j := Some gt])"
  by (simp add: setMonolocusGenotype_def)

lemma rebuildGenotype_one:
  assumes "j < length al" "j < length k" "j < length t" "k ! j < length (al ! j)"
  shows "rebuildGenotype lf al j (Suc 0) (t, k)
           = Inr (t[j := Some (MonoAlleleMonolocusGenotype (al ! j ! (k ! j)))], k[j := Suc (k ! j)])"
  using assms
  by (simp add: rebuildGenotype_def takeAllele_in_range setMonolocusGenotype_in_range)

lemma rebuildGenotype_two:
  assumes "j < length al" "j < length k" "j < length t" "Suc (k ! j) < length (al ! j)"
  shows "rebuildGenotype lf al j (Suc (Suc 0)) (t, k)
           = Inr (t[j := Some (makeBiAllele lf (al ! j ! (k ! j)) (al ! j ! Suc (k ! j)))],
                  k[j := Suc (Suc (k ! j))])"
proof -
  from assms have a: "k ! j < length (al ! j)" by simp
  have t1: "takeAllele al j k = Inr (al ! j ! (k ! j), k[j := Suc (k ! j)])"
    using assms a by (simp add: takeAllele_in_range)
  have t2: "takeAllele al j (k[j := Suc (k ! j)])
              = Inr (al ! j ! Suc (k ! j), k[j := Suc (Suc (k ! j))])"
    using assms by (simp add: takeAllele_in_range)
  show ?thesis
    using assms(3) by (simp add: rebuildGenotype_def t1 t2 setMonolocusGenotype_in_range)
qed

lemma rebuildGenotype_other:
  "n \<noteq> Suc 0 \<Longrightarrow> n \<noteq> Suc (Suc 0) \<Longrightarrow> rebuildGenotype lf al j n (t, k) = Inr (t, k)"
  by (simp add: rebuildGenotype_def)

lemma rebuildLocus_step:
  assumes "j < length mg" "j < length al" "j < length k" "j < length t"
    and "k ! j + consumed mg j \<le> length (al ! j)"
  shows "rebuildLocus lf al mg j (t, k)
           = Inr (case rebuilt lf (al ! j) (k ! j) (mg ! j) of None \<Rightarrow> t | Some gt \<Rightarrow> t[j := Some gt],
                  k[j := k ! j + consumed mg j])"
proof (cases "mg ! j")
  case None
  then show ?thesis
    using assms(1)
    by (simp add: rebuildLocus_def isMonolocusGenotypeMissing_in_range rebuilt_def consumed_def
        allelesAt_def)
next
  case (Some gt)
  let ?n = "length (getAlleleIndex gt)"
  have run: "rebuildLocus lf al mg j (t, k) = rebuildGenotype lf al j ?n (t, k)"
    using assms(1) Some
    by (simp add: rebuildLocus_def isMonolocusGenotypeMissing_in_range alleleIndexAt_Some)
  consider (one) "?n = Suc 0" | (two) "?n = Suc (Suc 0)" | (other) "?n \<noteq> Suc 0" "?n \<noteq> Suc (Suc 0)"
    by blast
  then show ?thesis
  proof cases
    case one
    with Some have c: "consumed mg j = 1"
      by (simp add: consumed_def allelesAt_def)
    with assms(5) have "k ! j < length (al ! j)" by simp
    from rebuildGenotype_one [OF assms(2,3,4) this] one Some c run show ?thesis
      by (simp add: rebuilt_def)
  next
    case two
    with Some have c: "consumed mg j = 2"
      by (simp add: consumed_def allelesAt_def)
    with assms(5) have "Suc (k ! j) < length (al ! j)" by simp
    from rebuildGenotype_two [OF assms(2,3,4) this] two Some c run show ?thesis
      by (simp add: rebuilt_def)
  next
    case other
    with Some have c: "consumed mg j = 0"
      by (auto simp: consumed_def allelesAt_def)
    from rebuildGenotype_other [OF other] other Some c run show ?thesis
      by (simp add: rebuilt_def)
  qed
qed

lemma rebuildRow_loop:
  assumes "length mg = L" "length al = L" "length k = L"
    and "\<forall>j<L. k ! j + consumed mg j \<le> length (al ! j)"
    and "m \<le> L"
  shows "foldE (rebuildLocus lf al mg) [0..<m] (replicate L None, k)
           = Inr (map (\<lambda>j. if j < m then rebuilt lf (al ! j) (k ! j) (mg ! j) else None) [0..<L],
                  map (\<lambda>j. if j < m then k ! j + consumed mg j else k ! j) [0..<L])"
  using assms(5)
proof (induction m)
  case 0
  show ?case using assms(3) by (simp add: map_nth_len map_replicate_const)
next
  case (Suc m)
  then have m: "m < L" by simp
  let ?T = "map (\<lambda>j. if j < m then rebuilt lf (al ! j) (k ! j) (mg ! j) else None) [0..<L]"
  let ?K = "map (\<lambda>j. if j < m then k ! j + consumed mg j else k ! j) [0..<L]"
  have Km: "?K ! m = k ! m" using m by simp
  have Tm: "?T ! m = None" using m by simp
  have bound: "?K ! m + consumed mg m \<le> length (al ! m)"
    using assms(4) m Km by simp
  have step: "rebuildLocus lf al mg m (?T, ?K)
           = Inr (case rebuilt lf (al ! m) (?K ! m) (mg ! m) of None \<Rightarrow> ?T | Some gt \<Rightarrow> ?T[m := Some gt],
                  ?K[m := ?K ! m + consumed mg m])"
    using m assms(1,2) by (intro rebuildLocus_step bound) simp_all
  have T': "(case rebuilt lf (al ! m) (?K ! m) (mg ! m) of None \<Rightarrow> ?T | Some gt \<Rightarrow> ?T[m := Some gt])
              = map (\<lambda>j. if j < Suc m then rebuilt lf (al ! j) (k ! j) (mg ! j) else None) [0..<L]"
  proof (cases "rebuilt lf (al ! m) (k ! m) (mg ! m)")
    case None
    then show ?thesis
      unfolding Km by (simp add: less_Suc_eq)
  next
    case (Some gt)
    then show ?thesis
      unfolding Km by (simp add: map_upt_update [OF m] less_Suc_eq)
  qed
  have K': "?K[m := ?K ! m + consumed mg m]
              = map (\<lambda>j. if j < Suc m then k ! j + consumed mg j else k ! j) [0..<L]"
    unfolding Km map_upt_update [OF m] by (rule map_cong) (auto simp: less_Suc_eq)
  from Suc.IH m have "foldE (rebuildLocus lf al mg) [0..<m] (replicate L None, k) = Inr (?T, ?K)"
    by simp
  then show ?case
    unfolding upt_Suc_append [OF le0] foldE_append
    by (simp only: bindE_Inr foldE.simps step T' K')
qed

lemma rebuildRow_result:
  assumes "length mg = L" "length al = L" "length k = L"
    and "\<forall>j<L. k ! j + consumed mg j \<le> length (al ! j)"
  shows "foldE (rebuildLocus lf al mg) [0..<L] (MultilocusGenotype_new L, k)
           = Inr (rebuiltRow lf al k mg, advance k mg)"
proof -
  have "foldE (rebuildLocus lf al mg) [0..<L] (replicate L None, k)
           = Inr (map (\<lambda>j. if j < L then rebuilt lf (al ! j) (k ! j) (mg ! j) else None) [0..<L],
                  map (\<lambda>j. if j < L then k ! j + consumed mg j else k ! j) [0..<L])"
    using assms by (intro rebuildRow_loop) simp_all
  moreover have "map (\<lambda>j. if j < L then rebuilt lf (al ! j) (k ! j) (mg ! j) else None) [0..<L]
                   = rebuiltRow lf al k mg"
    unfolding rebuiltRow_def assms(1) by (rule map_cong) simp_all
  moreover have "map (\<lambda>j. if j < L then k ! j + consumed mg j else k ! j) [0..<L] = advance k mg"
    unfolding advance_def assms(3) by (rule map_cong) simp_all
  ultimately show ?thesis
    by (simp add: MultilocusGenotype_new_def)
qed

lemma totalConsumed_Nil [simp]: "totalConsumed grps j [] = 0"
  by (simp add: totalConsumed_def)

lemma totalConsumed_Cons:
  "totalConsumed grps j (r # rs)
     = (if snd r |\<in>| grps then consumed (fst r) j else 0) + totalConsumed grps j rs"
  by (simp add: totalConsumed_def)

lemma length_advance [simp]: "length (advance k mg) = length k"
  by (simp add: advance_def)

lemma nth_advance: "j < length k \<Longrightarrow> advance k mg ! j = k ! j + consumed mg j"
  by (simp add: advance_def)

lemma rebuildAlleles_foreach:
  "rebuildAlleles lf c grps al st
     = foldE (\<lambda>r (out, k).
          if snd r |\<in>| grps
          then bindE (foldE (rebuildLocus lf al (fst r)) [0..<getNumberOfLoci c]
                        (MultilocusGenotype_new (getNumberOfLoci c), k))
                 (\<lambda>(tmpMg, k). Inr (addMultilocusGenotype out tmpMg (snd r), k))
          else Inr (addMultilocusGenotype out (fst r) (snd r), k)) (records c) st"
  unfolding rebuildAlleles_def Let_def size_PMGC_def
  by (rule foldE_upt_nth)
     (auto simp: getGroupId_in_range multilocusGenotype_in_range split: prod.splits)

lemma rebuildAlleles_loop:
  assumes "\<forall>r \<in> set rs. length (fst r) = L" and "length al = L" and "length k = L"
    and "\<forall>j<L. k ! j + totalConsumed grps j rs \<le> length (al ! j)"
  shows "\<exists>out'. foldE (\<lambda>r (out, k).
                    if snd r |\<in>| grps
                    then bindE (foldE (rebuildLocus lf al (fst r)) [0..<L] (MultilocusGenotype_new L, k))
                           (\<lambda>(tmpMg, k). Inr (addMultilocusGenotype out tmpMg (snd r), k))
                    else Inr (addMultilocusGenotype out (fst r) (snd r), k)) rs (out, k)
                 = Inr (out', map (\<lambda>j. k ! j + totalConsumed grps j rs) [0..<L])
           \<and> records out' = records out @ rebuiltRecords lf al grps k rs
           \<and> dom (groupsNames out') = dom (groupsNames out) \<union> snd ` set rs"
  using assms
proof (induction rs arbitrary: out k)
  case Nil
  then show ?case by (simp add: map_nth_len)
next
  case (Cons r rs)
  let ?step = "\<lambda>r (out, k).
                    if snd r |\<in>| grps
                    then bindE (foldE (rebuildLocus lf al (fst r)) [0..<L] (MultilocusGenotype_new L, k))
                           (\<lambda>(tmpMg, k). Inr (addMultilocusGenotype out tmpMg (snd r), k))
                    else Inr (addMultilocusGenotype out (fst r) (snd r), k)"
  from Cons.prems have lr: "length (fst r) = L" and lrs: "\<forall>r \<in> set rs. length (fst r) = L"
    by simp_all
  show ?case
  proof (cases "snd r |\<in>| grps")
    case True
    let ?k1 = "advance k (fst r)"
    let ?out1 = "addMultilocusGenotype out (rebuiltRow lf al k (fst r)) (snd r)"
    have b: "\<forall>j<L. k ! j + consumed (fst r) j \<le> length (al ! j)"
      using Cons.prems(4) True by (auto simp: totalConsumed_Cons)
    have s1: "?step r (out, k) = Inr (?out1, ?k1)"
      using True rebuildRow_result [OF lr Cons.prems(2,3) b, of lf] by simp
    have lk1: "length ?k1 = L" using Cons.prems(3) by simp
    have b1: "\<forall>j<L. ?k1 ! j + totalConsumed grps j rs \<le> length (al ! j)"
      using Cons.prems(3,4) True by (auto simp: totalConsumed_Cons nth_advance)
    from Cons.IH [OF lrs Cons.prems(2) lk1 b1, of ?out1]
    obtain out' where o1: "foldE ?step rs (?out1, ?k1)
                 = Inr (out', map (\<lambda>j. ?k1 ! j + totalConsumed grps j rs) [0..<L])"
      and o2: "records out' = records ?out1 @ rebuiltRecords lf al grps ?k1 rs"
      and o3: "dom (groupsNames out') = dom (groupsNames ?out1) \<union> snd ` set rs"
      by blast
    have km: "map (\<lambda>j. ?k1 ! j + totalConsumed grps j rs) [0..<L]
                = map (\<lambda>j. k ! j + totalConsumed grps j (r # rs)) [0..<L]"
      using Cons.prems(3) True by (intro map_cong) (simp_all add: totalConsumed_Cons nth_advance)
    have "foldE ?step (r # rs) (out, k)
            = Inr (out', map (\<lambda>j. k ! j + totalConsumed grps j (r # rs)) [0..<L])"
      unfolding foldE.simps s1 bindE_Inr o1 km ..
    moreover have "records out' = records out @ rebuiltRecords lf al grps k (r # rs)"
      using o2 True by simp
    moreover have "dom (groupsNames out') = dom (groupsNames out) \<union> snd ` set (r # rs)"
      using o3 by simp
    ultimately show ?thesis by blast
  next
    case False
    let ?out1 = "addMultilocusGenotype out (fst r) (snd r)"
    have s1: "?step r (out, k) = Inr (?out1, k)"
      using False by simp
    have b1: "\<forall>j<L. k ! j + totalConsumed grps j rs \<le> length (al ! j)"
      using Cons.prems(4) False by (simp add: totalConsumed_Cons)
    from Cons.IH [OF lrs Cons.prems(2,3) b1, of ?out1]
    obtain out' where o1: "foldE ?step rs (?out1, k)
                 = Inr (out', map (\<lambda>j. k ! j + totalConsumed grps j rs) [0..<L])"
      and o2: "records out' = records ?out1 @ rebuiltRecords lf al grps k rs"
      and o3: "dom (groupsNames out') = dom (groupsNames ?out1) \<union> snd ` set rs"
      by blast
    have km: "map (\<lambda>j. k ! j + totalConsumed grps j rs) [0..<L]
                = map (\<lambda>j. k ! j + totalConsumed grps j (r # rs)) [0..<L]"
      using False by (simp add: totalConsumed_Cons)
    have "foldE ?step (r # rs) (out, k)
            = Inr (out', map (\<lambda>j. k ! j + totalConsumed grps j (r # rs)) [0..<L])"
      unfolding foldE.simps s1 bindE_Inr o1 km ..
    moreover have "records out' = records out @ rebuiltRecords lf al grps k (r # rs)"
      using o2 False by simp
    moreover have "dom (groupsNames out') = dom (groupsNames out) \<union> snd ` set (r # rs)"
      using o3 by simp
    ultimately show ?thesis by blast
  qed
qed

lemma length_rebuiltRow [simp]: "length (rebuiltRow lf al k mg) = length mg"
  by (simp add: rebuiltRow_def)

lemma nth_rebuiltRow:
  "j < length mg \<Longrightarrow> rebuiltRow lf al k mg ! j = rebuilt lf (al ! j) (k ! j) (mg ! j)"
  by (simp add: rebuiltRow_def)

lemma getAlleleIndex_makeBiAllele:
  "mset (getAlleleIndex (makeBiAllele lf a b)) = {#a, b#}"
  "length (getAlleleIndex (makeBiAllele lf a b)) = 2"
  by (simp_all add: makeBiAllele_def)

lemma rebuiltRow_None_iff:
  "j < length mg \<Longrightarrow> (rebuiltRow lf al k mg ! j = None) = (consumed mg j = 0)"
  by (cases "mg ! j") (auto simp: nth_rebuiltRow rebuilt_def consumed_def allelesAt_def Let_def)

lemma length_allelesAt_rebuiltRow:
  "j < length mg \<Longrightarrow> length (allelesAt (rebuiltRow lf al k mg) j) = consumed mg j"
  by (cases "mg ! j")
     (auto simp: allelesAt_def [of "rebuiltRow lf al k mg"] nth_rebuiltRow rebuilt_def consumed_def
        allelesAt_def [of mg] Let_def getAlleleIndex_makeBiAllele)

lemma take_one_drop: "k < length xs \<Longrightarrow> take (Suc 0) (drop k xs) = [xs ! k]"
  by (simp add: Cons_nth_drop_Suc [symmetric])

lemma take_two_drop:
  "Suc k < length xs \<Longrightarrow> take (Suc (Suc 0)) (drop k xs) = [xs ! k, xs ! Suc k]"
  by (simp add: Cons_nth_drop_Suc [symmetric])

lemma mset_allelesAt_rebuiltRow:
  assumes "j < length mg" and "k ! j + consumed mg j \<le> length (al ! j)"
  shows "mset (allelesAt (rebuiltRow lf al k mg) j)
           = mset (take (consumed mg j) (drop (k ! j) (al ! j)))"
proof (cases "mg ! j")
  case None
  with assms(1) show ?thesis
    by (simp add: allelesAt_def [of "rebuiltRow lf al k mg"] nth_rebuiltRow rebuilt_def
        consumed_def allelesAt_def [of mg])
next
  case (Some gt)
  let ?n = "length (getAlleleIndex gt)"
  consider (one) "?n = Suc 0" | (two) "?n = Suc (Suc 0)" | (other) "?n \<noteq> Suc 0" "?n \<noteq> Suc (Suc 0)"
    by blast
  then show ?thesis
  proof cases
    case one
    with Some have c: "consumed mg j = Suc 0"
      by (simp add: consumed_def allelesAt_def)
    with assms(2) have "k ! j < length (al ! j)" by simp
    from take_one_drop [OF this] assms(1) Some one c show ?thesis
      by (simp add: allelesAt_def [of "rebuiltRow lf al k mg"] nth_rebuiltRow rebuilt_def)
  next
    case two
    with Some have c: "consumed mg j = Suc (Suc 0)"
      by (simp add: consumed_def allelesAt_def)
    with assms(2) have "Suc (k ! j) < length (al ! j)" by simp
    from take_two_drop [OF this] assms(1) Some two c show ?thesis
      by (simp add: allelesAt_def [of "rebuiltRow lf al k mg"] nth_rebuiltRow rebuilt_def
          getAlleleIndex_makeBiAllele)
  next
    case other
    with Some have c: "consumed mg j = 0"
      by (auto simp: consumed_def allelesAt_def)
    from assms(1) Some other c show ?thesis
      by (simp add: allelesAt_def [of "rebuiltRow lf al k mg"] nth_rebuiltRow rebuilt_def)
  qed
qed

lemma length_rebuiltRecords [simp]: "length (rebuiltRecords lf al grps k rs) = length rs"
  by (induction rs arbitrary: k) simp_all

lemma rebuiltRecords_group:
  "i < length rs \<Longrightarrow> snd (rebuiltRecords lf al grps k rs ! i) = snd (rs ! i)"
  by (induction rs arbitrary: k i) (auto simp: nth_Cons split: nat.splits)

lemma rebuiltRecords_unselected:
  "i < length rs \<Longrightarrow> snd (rs ! i) |\<notin>| grps \<Longrightarrow> rebuiltRecords lf al grps k rs ! i = rs ! i"
  by (induction rs arbitrary: k i) (auto simp: nth_Cons split: nat.splits)

lemma rebuiltRecords_selected:
  "i < length rs \<Longrightarrow> snd (rs ! i) |\<in>| grps \<Longrightarrow>
     \<exists>k'. fst (rebuiltRecords lf al grps k rs ! i) = rebuiltRow lf al k' (fst (rs ! i))"
  by (induction rs arbitrary: k i) (auto simp: nth_Cons split: nat.splits)

lemma mset_locusAlleles_rebuiltRecords:
  assumes "\<forall>r \<in> set rs. length (fst r) = L" and "length k = L" and "j < L"
    and "k ! j + totalConsumed grps j rs \<le> length (al ! j)"
  shows "mset (locusAlleles grps j (rebuiltRecords lf al grps k rs))
           = mset (take (totalConsumed grps j rs) (drop (k ! j) (al ! j)))"
  using assms
proof (induction rs arbitrary: k)
  case Nil
  show ?case by simp
next
  case (Cons r rs)
  from Cons.prems have lr: "length (fst r) = L" and lrs: "\<forall>r \<in> set rs. length (fst r) = L"
    by simp_all
  show ?case
  proof (cases "snd r |\<in>| grps")
    case True
    let ?c = "consumed (fst r) j"
    let ?t = "totalConsumed grps j rs"
    let ?k1 = "advance k (fst r)"
    have k1: "?k1 ! j = k ! j + ?c"
      using Cons.prems(2,3) by (simp add: nth_advance)
    have b: "k ! j + ?c \<le> length (al ! j)" and b1: "?k1 ! j + ?t \<le> length (al ! j)"
      using Cons.prems(4) True k1 by (simp_all add: totalConsumed_Cons)
    have row: "mset (allelesAt (rebuiltRow lf al k (fst r)) j)
                 = mset (take ?c (drop (k ! j) (al ! j)))"
      using lr Cons.prems(3) b by (intro mset_allelesAt_rebuiltRow) simp_all
    have rest: "mset (locusAlleles grps j (rebuiltRecords lf al grps ?k1 rs))
                  = mset (take ?t (drop (k ! j + ?c) (al ! j)))"
      using Cons.IH [OF lrs _ Cons.prems(3) b1] Cons.prems(2) k1 by simp
    have "take (?c + ?t) (drop (k ! j) (al ! j))
            = take ?c (drop (k ! j) (al ! j)) @ take ?t (drop (k ! j + ?c) (al ! j))"
      by (simp add: take_add add.commute)
    then show ?thesis
      using True row rest by (simp add: locusAlleles_Cons totalConsumed_Cons)
  next
    case False
    with Cons.IH [OF lrs Cons.prems(2,3)] Cons.prems(4) show ?thesis
      by (simp add: locusAlleles_Cons totalConsumed_Cons)
  qed
qed

lemma consumed_le: "consumed mg j \<le> length (allelesAt mg j)"
  by (simp add: consumed_def Let_def)

lemma totalConsumed_le: "totalConsumed grps j rs \<le> length (locusAlleles grps j rs)"
  by (induction rs) (auto simp: totalConsumed_Cons locusAlleles_Cons intro: add_mono consumed_le)

lemma permuteAlleles_result:
  assumes "wellFormed c" and "groupsKnown c"
  shows "\<exists>pools c'. collectAlleles c grps = Inr pools
           \<and> pools = map (\<lambda>j. locusAlleles grps j (records c)) [0..<getNumberOfLoci c]
           \<and> permuteAlleles lf c grps g = Inr (c', snd (shuffle_all pools g))
           \<and> records c' = rebuiltRecords lf (fst (shuffle_all pools g)) grps
                              (replicate (getNumberOfLoci c) 0) (records c)"
proof -
  let ?L = "getNumberOfLoci c"
  let ?rs = "records c"
  let ?pools = "map (\<lambda>j. locusAlleles grps j ?rs) [0..<?L]"
  obtain sh g' where sh: "shuffle_all ?pools g = (sh, g')"
    by (cases "shuffle_all ?pools g")
  have col: "collectAlleles c grps = Inr ?pools"
    using assms(1) by (rule collectAlleles_result)
  have lsh: "length sh = ?L"
    using length_shuffle_all [of ?pools g] sh by simp
  have msh: "mset (sh ! j) = mset (locusAlleles grps j ?rs)" if "j < ?L" for j
    using mset_shuffle_all [of j ?pools g] sh that by simp
  have bound: "\<forall>j<?L. replicate ?L 0 ! j + totalConsumed grps j ?rs \<le> length (sh ! j)"
  proof (intro allI impI)
    fix j assume j: "j < ?L"
    from msh [OF j] have "length (sh ! j) = length (locusAlleles grps j ?rs)"
      by (metis size_mset)
    with totalConsumed_le [of grps j ?rs] j
    show "replicate ?L 0 ! j + totalConsumed grps j ?rs \<le> length (sh ! j)"
      by simp
  qed
  have wf: "\<forall>r \<in> set ?rs. length (fst r) = ?L"
    using assms(1) by (simp add: wellFormed_iff)
  have lk: "length (replicate ?L (0::nat)) = ?L"
    by simp
  from rebuildAlleles_loop [OF wf lsh lk bound, where out = PMGC_new and lf = lf]
  obtain out where out: "rebuildAlleles lf c grps sh (PMGC_new, replicate ?L 0)
                 = Inr (out, map (\<lambda>j. replicate ?L 0 ! j + totalConsumed grps j ?rs) [0..<?L])"
    and rout: "records out = records PMGC_new @ rebuiltRecords lf sh grps (replicate ?L 0) ?rs"
    and dout: "dom (groupsNames out) = dom (groupsNames PMGC_new) \<union> snd ` set ?rs"
    unfolding rebuildAlleles_foreach by auto
  have k1: "getAllGroupsIds c \<subseteq> dom (groupsNames c)"
    using assms(2) by (simp add: groupsKnown_iff getAllGroupsIds_def)
  have k2: "getAllGroupsIds c \<subseteq> dom (groupsNames out)"
    unfolding dout getAllGroupsIds_def by simp
  have "finite (getAllGroupsIds c)"
    by (simp add: getAllGroupsIds_def)
  from updateGroupNames_ok [OF this k1 k2]
  obtain c' where c': "updateGroupNames c (getAllGroupsIds c) out = Inr c'"
    and rc': "records c' = records out"
    by blast
  have run: "permuteAlleles lf c grps g = Inr (c', g')"
    by (simp add: permuteAlleles_def Let_def col sh out c')
  have "records c' = rebuiltRecords lf sh grps (replicate ?L 0) ?rs"
    using rc' rout by (simp add: PMGC_new_def)
  with col run sh show ?thesis
    by (intro exI [of _ ?pools] exI [of _ c']) simp
qed

lemma monoOrBiAllelic_iff:
  "monoOrBiAllelic c \<longleftrightarrow>
     (\<forall>r \<in> set (records c). \<forall>p \<in> set (fst r).
        case p of None \<Rightarrow> True
                | Some gt \<Rightarrow> length (getAlleleIndex gt) = 1 \<or> length (getAlleleIndex gt) = 2)"
  by (simp add: monoOrBiAllelic_def list_all_iff)

lemma consumed_monoOrBi:
  assumes "monoOrBiAllelic c" and "r \<in> set (records c)" and "j < length (fst r)"
  shows "consumed (fst r) j = length (allelesAt (fst r) j)"
    and "(consumed (fst r) j = 0) = (fst r ! j = None)"
proof -
  from assms(3) have "fst r ! j \<in> set (fst r)" by simp
  with assms(1,2) have h: "case fst r ! j of None \<Rightarrow> True
        | Some gt \<Rightarrow> length (getAlleleIndex gt) = 1 \<or> length (getAlleleIndex gt) = 2"
    unfolding monoOrBiAllelic_iff by blast
  then show "consumed (fst r) j = length (allelesAt (fst r) j)"
    by (cases "fst r ! j") (auto simp: consumed_def allelesAt_def)
  from h show "(consumed (fst r) j = 0) = (fst r ! j = None)"
    by (cases "fst r ! j") (auto simp: consumed_def allelesAt_def)
qed

lemma totalConsumed_full:
  "\<forall>r \<in> set rs. consumed (fst r) j = length (allelesAt (fst r) j)
     \<Longrightarrow> totalConsumed grps j rs = length (locusAlleles grps j rs)"
  by (induction rs) (simp_all add: totalConsumed_Cons locusAlleles_Cons)

lemma allelesAt_subset_locusAlleles:
  "i < length rs \<Longrightarrow> snd (rs ! i) |\<in>| grps
     \<Longrightarrow> mset (allelesAt (fst (rs ! i)) j) \<subseteq># mset (locusAlleles grps j rs)"
proof (induction rs arbitrary: i)
  case Nil
  then show ?case by simp
next
  case (Cons r rs)
  show ?case
  proof (cases i)
    case 0
    with Cons.prems show ?thesis by (simp add: locusAlleles_Cons)
  next
    case (Suc i')
    with Cons.prems have "mset (allelesAt (fst (rs ! i')) j) \<subseteq># mset (locusAlleles grps j rs)"
      by (intro Cons.IH) simp_all
    then have "mset (allelesAt (fst (rs ! i')) j)
                 \<subseteq># mset (if snd r |\<in>| grps then allelesAt (fst r) j else [])
                      + mset (locusAlleles grps j rs)"
      by (rule subset_mset.add_increasing [OF empty_le])
    with Suc show ?thesis by (simp add: locusAlleles_Cons)
  qed
qed

lemma totalConsumed_unused:
  "i < length rs \<Longrightarrow> snd (rs ! i) |\<in>| grps \<Longrightarrow> consumed (fst (rs ! i)) j = 0
     \<Longrightarrow> totalConsumed grps j rs + length (allelesAt (fst (rs ! i)) j)
           \<le> length (locusAlleles grps j rs)"
proof (induction rs arbitrary: i)
  case Nil
  then show ?case by simp
next
  case (Cons r rs)
  show ?case
  proof (cases i)
    case 0
    with Cons.prems totalConsumed_le [of grps j rs] show ?thesis
      by (simp add: locusAlleles_Cons totalConsumed_Cons)
  next
    case (Suc i')
    with Cons.prems have "totalConsumed grps j rs + length (allelesAt (fst (rs ! i')) j)
           \<le> length (locusAlleles grps j rs)"
      by (intro Cons.IH) simp_all
    with Suc consumed_le [of "fst r" j] show ?thesis
      by (simp add: locusAlleles_Cons totalConsumed_Cons)
  qed
qed

text \<open>
  Claim C4. On a well-formed collection whose groups are known and whose genotypes, when
  not missing, hold one or two alleles, \<^verbatim>\<open>permuteAlleles\<close> returns a collection with the
  records in the order of the input: each has the group id of the input record at its
  position, a record of an unselected group is the input record, and at every locus the
  genotype of a record has as many alleles as in the input and is missing exactly when it
  was missing in the input. For each locus the multiset of the alleles over the records
  of the selected groups is that of the input. This holds for either order of evaluation
  of the two arguments of the diploid constructor.
\<close>

theorem permuteAlleles_preserves_ploidy:
  assumes "wellFormed c" and "groupsKnown c" and "monoOrBiAllelic c"
  shows "\<exists>c' g'. permuteAlleles lf c grps g = Inr (c', g')
     \<and> length (records c') = length (records c)
     \<and> (\<forall>i < length (records c).
            snd (records c' ! i) = snd (records c ! i)
          \<and> length (fst (records c' ! i)) = length (fst (records c ! i))
          \<and> (snd (records c ! i) |\<notin>| grps \<longrightarrow> records c' ! i = records c ! i)
          \<and> (\<forall>j < getNumberOfLoci c.
                length (allelesAt (fst (records c' ! i)) j)
                  = length (allelesAt (fst (records c ! i)) j)
              \<and> ((fst (records c' ! i) ! j = None) = (fst (records c ! i) ! j = None))))
     \<and> (\<forall>j < getNumberOfLoci c.
            mset (locusAlleles grps j (records c')) = mset (locusAlleles grps j (records c)))"
proof -
  let ?L = "getNumberOfLoci c"
  let ?rs = "records c"
  from permuteAlleles_result [OF assms(1,2), of grps lf g]
  obtain pools c' where pools: "pools = map (\<lambda>j. locusAlleles grps j ?rs) [0..<?L]"
    and run: "permuteAlleles lf c grps g = Inr (c', snd (shuffle_all pools g))"
    and rc': "records c' = rebuiltRecords lf (fst (shuffle_all pools g)) grps (replicate ?L 0) ?rs"
    by blast
  let ?sh = "fst (shuffle_all pools g)"
  have wf: "\<forall>r \<in> set ?rs. length (fst r) = ?L"
    using assms(1) by (simp add: wellFormed_iff)
  have len: "length (records c') = length ?rs"
    unfolding rc' by simp
  have rec: "snd (records c' ! i) = snd (?rs ! i)
          \<and> length (fst (records c' ! i)) = length (fst (?rs ! i))
          \<and> (snd (?rs ! i) |\<notin>| grps \<longrightarrow> records c' ! i = ?rs ! i)
          \<and> (\<forall>j < ?L. length (allelesAt (fst (records c' ! i)) j) = length (allelesAt (fst (?rs ! i)) j)
              \<and> ((fst (records c' ! i) ! j = None) = (fst (?rs ! i) ! j = None)))"
    if i: "i < length ?rs" for i
  proof (cases "snd (?rs ! i) |\<in>| grps")
    case False
    from rebuiltRecords_unselected [OF i False] have "records c' ! i = ?rs ! i"
      unfolding rc' .
    then show ?thesis by simp
  next
    case True
    from i have mem: "?rs ! i \<in> set ?rs" by simp
    with wf have li: "length (fst (?rs ! i)) = ?L" by blast
    from rebuiltRecords_selected [OF i True]
    obtain k' where row: "fst (records c' ! i) = rebuiltRow lf ?sh k' (fst (?rs ! i))"
      unfolding rc' by blast
    have grp: "snd (records c' ! i) = snd (?rs ! i)"
      unfolding rc' using i by (rule rebuiltRecords_group)
    have loc: "length (allelesAt (fst (records c' ! i)) j) = length (allelesAt (fst (?rs ! i)) j)
              \<and> ((fst (records c' ! i) ! j = None) = (fst (?rs ! i) ! j = None))"
      if j: "j < ?L" for j
    proof -
      from j li have j': "j < length (fst (?rs ! i))" by simp
      show ?thesis
        unfolding row length_allelesAt_rebuiltRow [OF j'] rebuiltRow_None_iff [OF j']
        using consumed_monoOrBi [OF assms(3) mem j'] by simp
    qed
    from grp row loc True show ?thesis by simp
  qed
  have ms: "mset (locusAlleles grps j (records c')) = mset (locusAlleles grps j ?rs)"
    if j: "j < ?L" for j
  proof -
    have full: "\<forall>r \<in> set ?rs. consumed (fst r) j = length (allelesAt (fst r) j)"
      using consumed_monoOrBi(1) [OF assms(3)] wf j by simp
    have tot: "totalConsumed grps j ?rs = length (locusAlleles grps j ?rs)"
      using full by (rule totalConsumed_full)
    have msh: "mset (?sh ! j) = mset (locusAlleles grps j ?rs)"
      using mset_shuffle_all [of j pools g] j unfolding pools by simp
    then have lsh: "length (?sh ! j) = length (locusAlleles grps j ?rs)"
      by (metis size_mset)
    have "mset (locusAlleles grps j (records c'))
            = mset (take (totalConsumed grps j ?rs) (drop (replicate ?L 0 ! j) (?sh ! j)))"
      unfolding rc' using wf j tot lsh by (intro mset_locusAlleles_rebuiltRecords) simp_all
    also have "\<dots> = mset (?sh ! j)"
      using j tot lsh by simp
    finally show ?thesis using msh by simp
  qed
  from run len rec ms show ?thesis
    by (intro exI [of _ c'] exI [of _ "snd (shuffle_all pools g)"]) blast
qed

theorem permuteAlleles_preserves_ploidy_witness:
  "wellFormed example_diploid \<and> groupsKnown example_diploid \<and> monoOrBiAllelic example_diploid
   \<and> (\<exists>c' g'. permuteAlleles True example_diploid {|1, 2|} [1, 1] = Inr (c', g')
         \<and> records c' =
             [([Some (BiAlleleMonolocusGenotype 2 1), None], 1),
              ([Some (MonoAlleleMonolocusGenotype 3), Some (BiAlleleMonolocusGenotype 5 4)], 2),
              ([Some (BiAlleleMonolocusGenotype 6 6), Some (MonoAlleleMonolocusGenotype 7)], 3)])"
proof -
  have w: "wellFormed example_diploid" and k: "groupsKnown example_diploid"
    and m: "monoOrBiAllelic example_diploid"
    by code_simp+
  have e: "map_sum id (\<lambda>(c, g). records c) (permuteAlleles True example_diploid {|1, 2|} [1, 1])
             = Inr [([Some (BiAlleleMonolocusGenotype 2 1), None], 1),
                    ([Some (MonoAlleleMonolocusGenotype 3), Some (BiAlleleMonolocusGenotype 5 4)], 2),
                    ([Some (BiAlleleMonolocusGenotype 6 6), Some (MonoAlleleMonolocusGenotype 7)], 3)]"
    by code_simp
  from permuteAlleles_preserves_ploidy [OF w k m, where lf = True and grps = "{|1, 2|}" and g = "[1, 1]"]
  obtain c' g' where c': "permuteAlleles True example_diploid {|1, 2|} [1, 1] = Inr (c', g')"
    by blast
  with e have "records c' =
             [([Some (BiAlleleMonolocusGenotype 2 1), None], 1),
              ([Some (MonoAlleleMonolocusGenotype 3), Some (BiAlleleMonolocusGenotype 5 4)], 2),
              ([Some (BiAlleleMonolocusGenotype 6 6), Some (MonoAlleleMonolocusGenotype 7)], 3)]"
    by simp
  with c' have "\<exists>c' g'. permuteAlleles True example_diploid {|1, 2|} [1, 1] = Inr (c', g')
         \<and> records c' =
             [([Some (BiAlleleMonolocusGenotype 2 1), None], 1),
              ([Some (MonoAlleleMonolocusGenotype 3), Some (BiAlleleMonolocusGenotype 5 4)], 2),
              ([Some (BiAlleleMonolocusGenotype 6 6), Some (MonoAlleleMonolocusGenotype 7)], 3)]"
    by (intro exI [of _ c'] exI [of _ g'] conjI)
  with w k m show ?thesis by (intro conjI)
qed

text \<open>
  Claim C10. When a record of a selected group has, at locus \<open>j\<close>, a genotype \<open>gt\<close> with
  more than two alleles, \<^verbatim>\<open>permuteAlleles\<close> puts all the alleles of \<open>gt\<close> into the pool
  of the locus (and the shuffled pool is a permutation of it), but the record's genotype
  at \<open>j\<close> is missing in the output, so that its number of alleles has changed. The
  alleles handed to the records at \<open>j\<close> are the first entries of the shuffled pool, as
  many as the genotypes with one or two alleles take: the counter does not move for
  \<open>gt\<close>, the later records read on from the same position, and at least as many entries as
  \<open>gt\<close> has alleles stay unused at the end of the pool.
\<close>

theorem permuteAlleles_drops_multiallelic:
  assumes "wellFormed c" and "groupsKnown c"
    and "i < length (records c)" and "snd (records c ! i) |\<in>| grps"
    and "j < getNumberOfLoci c"
    and "fst (records c ! i) ! j = Some gt" and "2 < length (getAlleleIndex gt)"
  shows "\<exists>pools c' g'. collectAlleles c grps = Inr pools
     \<and> mset (getAlleleIndex gt) \<subseteq># mset (pools ! j)
     \<and> mset (fst (shuffle_all pools g) ! j) = mset (pools ! j)
     \<and> permuteAlleles lf c grps g = Inr (c', g')
     \<and> fst (records c' ! i) ! j = None
     \<and> length (allelesAt (fst (records c' ! i)) j) \<noteq> length (allelesAt (fst (records c ! i)) j)
     \<and> mset (locusAlleles grps j (records c'))
         = mset (take (totalConsumed grps j (records c)) (fst (shuffle_all pools g) ! j))
     \<and> totalConsumed grps j (records c) + length (getAlleleIndex gt) \<le> length (pools ! j)"
proof -
  let ?L = "getNumberOfLoci c"
  let ?rs = "records c"
  from permuteAlleles_result [OF assms(1,2), of grps lf g]
  obtain pools c' where col: "collectAlleles c grps = Inr pools"
    and pools: "pools = map (\<lambda>j. locusAlleles grps j ?rs) [0..<?L]"
    and run: "permuteAlleles lf c grps g = Inr (c', snd (shuffle_all pools g))"
    and rc': "records c' = rebuiltRecords lf (fst (shuffle_all pools g)) grps (replicate ?L 0) ?rs"
    by blast
  let ?sh = "fst (shuffle_all pools g)"
  have wf: "\<forall>r \<in> set ?rs. length (fst r) = ?L"
    using assms(1) by (simp add: wellFormed_iff)
  from assms(3) have mem: "?rs ! i \<in> set ?rs" by simp
  with wf assms(5) have j': "j < length (fst (?rs ! i))" by simp
  have pj: "pools ! j = locusAlleles grps j ?rs"
    using assms(5) unfolding pools by simp
  have al: "allelesAt (fst (?rs ! i)) j = getAlleleIndex gt"
    using assms(6) by (simp add: allelesAt_def)
  have c0: "consumed (fst (?rs ! i)) j = 0"
    using assms(7) al by (simp add: consumed_def)
  have sub: "mset (getAlleleIndex gt) \<subseteq># mset (pools ! j)"
    using allelesAt_subset_locusAlleles [OF assms(3,4), of j] al pj by simp
  have msh: "mset (?sh ! j) = mset (pools ! j)"
    using mset_shuffle_all [of j pools g] assms(5) unfolding pools by simp
  then have lsh: "length (?sh ! j) = length (pools ! j)"
    by (metis size_mset)
  from rebuiltRecords_selected [OF assms(3,4)]
  obtain k' where row: "fst (records c' ! i) = rebuiltRow lf ?sh k' (fst (?rs ! i))"
    unfolding rc' by blast
  have none: "fst (records c' ! i) ! j = None"
    unfolding row rebuiltRow_None_iff [OF j'] by (rule c0)
  have l0: "length (allelesAt (fst (records c' ! i)) j) = 0"
    unfolding row length_allelesAt_rebuiltRow [OF j'] by (rule c0)
  have "length (allelesAt (fst (?rs ! i)) j) \<noteq> 0"
    unfolding al using assms(7) by linarith
  then have ploidy: "length (allelesAt (fst (records c' ! i)) j) \<noteq> length (allelesAt (fst (?rs ! i)) j)"
    unfolding l0 by (rule not_sym)
  have unused: "totalConsumed grps j ?rs + length (getAlleleIndex gt) \<le> length (pools ! j)"
    using totalConsumed_unused [OF assms(3,4) c0] al pj by simp
  have "mset (locusAlleles grps j (records c'))
          = mset (take (totalConsumed grps j ?rs) (drop (replicate ?L 0 ! j) (?sh ! j)))"
    unfolding rc' using wf assms(5) unused lsh
    by (intro mset_locusAlleles_rebuiltRecords) simp_all
  then have given: "mset (locusAlleles grps j (records c'))
          = mset (take (totalConsumed grps j ?rs) (?sh ! j))"
    using assms(5) by simp
  from col sub msh run none ploidy given unused show ?thesis
    by (intro exI [of _ pools] exI [of _ c'] exI [of _ "snd (shuffle_all pools g)"]) blast
qed

theorem permuteAlleles_drops_multiallelic_witness:
  "wellFormed example_triallelic \<and> groupsKnown example_triallelic
   \<and> 0 < length (records example_triallelic)
   \<and> snd (records example_triallelic ! 0) |\<in>| {|1|}
   \<and> 0 < getNumberOfLoci example_triallelic
   \<and> fst (records example_triallelic ! 0) ! 0 = Some (MultiAlleleMonolocusGenotype [1, 2, 3])
   \<and> 2 < length (getAlleleIndex (MultiAlleleMonolocusGenotype [1, 2, 3]))
   \<and> collectAlleles example_triallelic {|1|} = Inr [[1, 2, 3, 4, 5]]
   \<and> (\<exists>c' g'. permuteAlleles True example_triallelic {|1|} [0] = Inr (c', g')
         \<and> records c' = [([None], 1), ([Some (BiAlleleMonolocusGenotype 1 2)], 1)])"
proof -
  have w: "wellFormed example_triallelic" and k: "groupsKnown example_triallelic"
    by code_simp+
  have i: "0 < length (records example_triallelic)"
    and s: "snd (records example_triallelic ! 0) |\<in>| {|1|}"
    and j: "0 < getNumberOfLoci example_triallelic"
    and gt: "fst (records example_triallelic ! 0) ! 0 = Some (MultiAlleleMonolocusGenotype [1, 2, 3])"
    and n: "2 < length (getAlleleIndex (MultiAlleleMonolocusGenotype [1, 2, 3]))"
    by (simp_all add: example_triallelic_def getNumberOfLoci_def)
  have p: "collectAlleles example_triallelic {|1|} = Inr [[1, 2, 3, 4, 5]]"
    by code_simp
  have e: "map_sum id (\<lambda>(c, g). records c) (permuteAlleles True example_triallelic {|1|} [0])
             = Inr [([None], 1), ([Some (BiAlleleMonolocusGenotype 1 2)], 1)]"
    by code_simp
  from permuteAlleles_drops_multiallelic [OF w k i s j gt n, where lf = True and g = "[0]"]
  obtain c' g' where c': "permuteAlleles True example_triallelic {|1|} [0] = Inr (c', g')"
    by blast
  with e have "records c' = [([None], 1), ([Some (BiAlleleMonolocusGenotype 1 2)], 1)]"
    by simp
  with c' have "\<exists>c' g'. permuteAlleles True example_triallelic {|1|} [0] = Inr (c', g')
         \<and> records c' = [([None], 1), ([Some (BiAlleleMonolocusGenotype 1 2)], 1)]"
    by (intro exI [of _ c'] exI [of _ g'] conjI)
  with w k i s j gt n p show ?thesis by (intro conjI)
qed

section \<open>\<^verbatim>\<open>permuteMonoG\<close> and the intra-group permutations\<close>

lemma pushClone_loop:
  assumes "length mg = L" and "length al = L" and "m \<le> L"
  shows "foldE (\<lambda>j monoGens. bindE (monolocusGenotype_clone mg j)
                   (\<lambda>p. Inr (monoGens[j := monoGens ! j @ [p]]))) [0..<m] al
           = Inr (map (\<lambda>j. if j < m then al ! j @ [mg ! j] else al ! j) [0..<L])"
  using assms(3)
proof (induction m)
  case 0
  show ?case using assms(2) by (simp add: map_nth_len)
next
  case (Suc m)
  then have m: "m < L" by simp
  let ?f = "\<lambda>j. if j < m then al ! j @ [mg ! j] else al ! j"
  have "(map ?f [0..<L])[m := map ?f [0..<L] ! m @ [mg ! m]]
               = map (\<lambda>j. if j < Suc m then al ! j @ [mg ! j] else al ! j) [0..<L]"
    using m unfolding map_upt_update [OF m] by (intro map_cong) (auto simp: less_Suc_eq)
  then show ?case
    using Suc.IH m assms(1) by (simp add: foldE_append monolocusGenotype_clone_def)
qed

lemma collectMonoGens_loop:
  assumes "\<forall>r \<in> set rs. length (fst r) = L" and "length al = L"
  shows "foldE (\<lambda>r al. if snd r |\<in>| grps
                         then foldE (\<lambda>j monoGens. bindE (monolocusGenotype_clone (fst r) j)
                                 (\<lambda>p. Inr (monoGens[j := monoGens ! j @ [p]]))) [0..<L] al
                         else Inr al) rs al
           = Inr (map (\<lambda>j. al ! j @ map (\<lambda>r. fst r ! j) (filter (\<lambda>r. snd r |\<in>| grps) rs)) [0..<L])"
  using assms
proof (induction rs arbitrary: al)
  case Nil
  then show ?case by (simp add: map_nth_len)
next
  case (Cons r rs)
  let ?al1 = "map (\<lambda>j. al ! j @ (if snd r |\<in>| grps then [fst r ! j] else [])) [0..<L]"
  have step: "(if snd r |\<in>| grps
               then foldE (\<lambda>j monoGens. bindE (monolocusGenotype_clone (fst r) j)
                                 (\<lambda>p. Inr (monoGens[j := monoGens ! j @ [p]]))) [0..<L] al
               else Inr al) = Inr ?al1"
  proof (cases "snd r |\<in>| grps")
    case True
    from Cons.prems have "length (fst r) = L" by simp
    from pushClone_loop [OF this Cons.prems(2), of L] True show ?thesis by simp
  next
    case False
    with Cons.prems(2) show ?thesis by (simp add: map_nth_len)
  qed
  have len1: "length ?al1 = L" by simp
  from Cons.prems have "\<forall>r \<in> set rs. length (fst r) = L" by simp
  from Cons.IH [OF this len1]
  have "foldE (\<lambda>r al. if snd r |\<in>| grps
                         then foldE (\<lambda>j monoGens. bindE (monolocusGenotype_clone (fst r) j)
                                 (\<lambda>p. Inr (monoGens[j := monoGens ! j @ [p]]))) [0..<L] al
                         else Inr al) rs ?al1
           = Inr (map (\<lambda>j. ?al1 ! j @ map (\<lambda>r. fst r ! j) (filter (\<lambda>r. snd r |\<in>| grps) rs)) [0..<L])" .
  also have "map (\<lambda>j. ?al1 ! j @ map (\<lambda>r. fst r ! j) (filter (\<lambda>r. snd r |\<in>| grps) rs)) [0..<L]
               = map (\<lambda>j. al ! j @ map (\<lambda>r. fst r ! j) (filter (\<lambda>r. snd r |\<in>| grps) (r # rs))) [0..<L]"
    by (rule map_cong) simp_all
  finally show ?case
    using step by simp
qed

lemma collectMonoGens_result:
  assumes "wellFormed c"
  shows "collectMonoGens c grps
           = Inr (map (\<lambda>j. map (\<lambda>r. fst r ! j) (filter (\<lambda>r. snd r |\<in>| grps) (records c)))
                    [0..<getNumberOfLoci c])"
proof -
  let ?L = "getNumberOfLoci c"
  have "collectMonoGens c grps
          = foldE (\<lambda>r al. if snd r |\<in>| grps
                         then foldE (\<lambda>j monoGens. bindE (monolocusGenotype_clone (fst r) j)
                                 (\<lambda>p. Inr (monoGens[j := monoGens ! j @ [p]]))) [0..<?L] al
                         else Inr al) (records c) (replicate ?L [])"
    unfolding collectMonoGens_def Let_def size_PMGC_def
    by (rule foldE_upt_nth) (simp add: getGroupId_in_range multilocusGenotype_in_range)
  also have "\<dots> = Inr (map (\<lambda>j. replicate ?L [] ! j
                          @ map (\<lambda>r. fst r ! j) (filter (\<lambda>r. snd r |\<in>| grps) (records c))) [0..<?L])"
    using assms by (intro collectMonoGens_loop) (simp_all add: wellFormed_iff)
  also have "map (\<lambda>j. replicate ?L [] ! j
                          @ map (\<lambda>r. fst r ! j) (filter (\<lambda>r. snd r |\<in>| grps) (records c))) [0..<?L]
               = map (\<lambda>j. map (\<lambda>r. fst r ! j) (filter (\<lambda>r. snd r |\<in>| grps) (records c))) [0..<?L]"
    by (rule map_cong) simp_all
  finally show ?thesis .
qed

lemma fillFromMonoGens_first:
  assumes "length monoGens = L" and "\<forall>j<L. monoGens ! j \<noteq> []" and "m \<le> L" and "length t = L"
  shows "\<exists>t'. foldE (\<lambda>j tmpMg.
        bindE (nthE monoGens j) (\<lambda>col.
        bindE (nthE col 0) (\<lambda>p.
          case p of
            None \<Rightarrow> Inr tmpMg
          | Some gt \<Rightarrow> bindE (deref tmpMg) (\<lambda>mg.
                        bindE (setMonolocusGenotype mg j gt) (\<lambda>mg'. Inr (Some mg'))))))
       [0..<m] (Some t) = Inr (Some t') \<and> length t' = L"
  using assms(3)
proof (induction m)
  case 0
  show ?case using assms(4) by simp
next
  case (Suc m)
  then have m: "m < L" by simp
  with Suc.IH obtain t1 where t1: "foldE (\<lambda>j tmpMg.
        bindE (nthE monoGens j) (\<lambda>col.
        bindE (nthE col 0) (\<lambda>p.
          case p of
            None \<Rightarrow> Inr tmpMg
          | Some gt \<Rightarrow> bindE (deref tmpMg) (\<lambda>mg.
                        bindE (setMonolocusGenotype mg j gt) (\<lambda>mg'. Inr (Some mg'))))))
       [0..<m] (Some t) = Inr (Some t1)" and l1: "length t1 = L"
    by auto
  from assms(2) m have ne: "0 < length (monoGens ! m)" by simp
  show ?case
    using m assms(1) ne l1
    by (cases "monoGens ! m ! 0")
       (simp_all add: foldE_append t1 deref_def setMonolocusGenotype_def)
qed

lemma buildMonoG_step_first:
  assumes "wellFormed pmgc" and "records pmgc \<noteq> []"
    and "length monoGens = getNumberOfLoci pmgc"
    and "\<forall>j<getNumberOfLoci pmgc. length (monoGens ! j)
            = length (filter (\<lambda>r. snd r |\<in>| grps) (records pmgc))"
  shows "buildMonoG_step pmgc grps monoGens (getNumberOfLoci pmgc) 0 (None, 0)
           = Inl NullPointerDereference"
proof -
  let ?L = "getNumberOfLoci pmgc"
  from assms(2) have i: "0 < length (records pmgc)" by simp
  show ?thesis
  proof (cases "snd (records pmgc ! 0) |\<in>| grps")
    case False
    then show ?thesis
      using i
      by (simp add: buildMonoG_step_def getGroupId_in_range multilocusGenotype_in_range deref_def)
  next
    case True
    with i have "records pmgc ! 0 \<in> set (filter (\<lambda>r. snd r |\<in>| grps) (records pmgc))"
      by simp
    then have "filter (\<lambda>r. snd r |\<in>| grps) (records pmgc) \<noteq> []"
      by (metis empty_iff empty_set)
    with assms(4) have ne: "\<forall>j<?L. monoGens ! j \<noteq> []"
      by (metis length_0_conv)
    from fillFromMonoGens_first [OF assms(3) ne le_refl, of "replicate ?L None"]
    obtain t' where "fillFromMonoGens monoGens ?L 0 (Some (MultilocusGenotype_new ?L)) = Inr (Some t')"
      unfolding fillFromMonoGens_def MultilocusGenotype_new_def by auto
    then show ?thesis
      using i True by (simp add: buildMonoG_step_def getGroupId_in_range deref_def)
  qed
qed

lemma permuteMonoG_null_dereference:
  assumes "wellFormed pmgc" and "records pmgc \<noteq> []"
  shows "permuteMonoG pmgc grps g = Inl NullPointerDereference"
proof -
  let ?L = "getNumberOfLoci pmgc"
  let ?mgs = "map (\<lambda>j. map (\<lambda>r. fst r ! j) (filter (\<lambda>r. snd r |\<in>| grps) (records pmgc))) [0..<?L]"
  obtain sh g1 where sh: "shuffle_all ?mgs g = (sh, g1)"
    by (cases "shuffle_all ?mgs g")
  have lsh: "length sh = ?L"
    using length_shuffle_all [of ?mgs g] sh by simp
  have cols: "\<forall>j<?L. length (sh ! j) = length (filter (\<lambda>r. snd r |\<in>| grps) (records pmgc))"
  proof (intro allI impI)
    fix j assume j: "j < ?L"
    from mset_shuffle_all [of j ?mgs g] sh j
    have "mset (sh ! j) = mset (map (\<lambda>r. fst r ! j) (filter (\<lambda>r. snd r |\<in>| grps) (records pmgc)))"
      by simp
    then have "length (sh ! j) = length (map (\<lambda>r. fst r ! j) (filter (\<lambda>r. snd r |\<in>| grps) (records pmgc)))"
      by (metis size_mset)
    then show "length (sh ! j) = length (filter (\<lambda>r. snd r |\<in>| grps) (records pmgc))"
      by simp
  qed
  from assms(2) have "0 < size_PMGC pmgc"
    by (simp add: size_PMGC_def)
  then have upt: "[0..<size_PMGC pmgc] = 0 # [Suc 0..<size_PMGC pmgc]"
    by (rule upt_conv_Cons)
  have "buildMonoG_step pmgc grps sh ?L 0 (None, 0) = Inl NullPointerDereference"
    using assms lsh cols by (rule buildMonoG_step_first)
  then show ?thesis
    using collectMonoGens_result [OF assms(1), of grps] sh upt
    by (simp add: permuteMonoG_def Let_def)
qed

lemma buildMonoG_step_null:
  "\<exists>e. buildMonoG_step pmgc grps monoGens locNum i (None, k) = Inl e"
  by (auto simp: buildMonoG_step_def bindE_def deref_def split: sum.splits option.splits)

lemma permuteMonoG_never_Some:
  "permuteMonoG pmgc grps g \<noteq> Inr (Some c', g')
   \<and> (records pmgc \<noteq> [] \<longrightarrow> (\<exists>e. permuteMonoG pmgc grps g = Inl e))"
proof (cases "collectMonoGens pmgc grps")
  case (Inl e)
  then show ?thesis by (simp add: permuteMonoG_def Let_def)
next
  case (Inr monoGens)
  obtain mgs g1 where sh: "shuffle_all monoGens g = (mgs, g1)"
    by (cases "shuffle_all monoGens g")
  show ?thesis
  proof (cases "records pmgc")
    case Nil
    then show ?thesis
      using Inr sh
      by (simp add: permuteMonoG_def Let_def size_PMGC_def updateGroupNames_ptr_def
          getAllGroupsIds_def)
  next
    case (Cons r rs)
    then have "0 < size_PMGC pmgc"
      by (simp add: size_PMGC_def)
    then have upt: "[0..<size_PMGC pmgc] = 0 # [Suc 0..<size_PMGC pmgc]"
      by (rule upt_conv_Cons)
    obtain e where "buildMonoG_step pmgc grps mgs (getNumberOfLoci pmgc) 0 (None, 0) = Inl e"
      using buildMonoG_step_null by blast
    then have "permuteMonoG pmgc grps g = Inl e"
      using Inr sh upt by (simp add: permuteMonoG_def Let_def)
    then show ?thesis by simp
  qed
qed

text \<open>
  Claim C1. The permutation operations are said to return a new collection for every
  well-formed input. \<^verbatim>\<open>permuteMonoG\<close> never does: its result pointer is null. For a
  collection without records the null pointer itself is returned; with a record, the
  operation ends in an error, and on every well-formed input with a record that error is
  the dereference of the null pointer, at the first record.
\<close>

theorem permuteMonoG_returns_no_collection:
  "permuteMonoG pmgc grps g \<noteq> Inr (Some c', g')
   \<and> (records pmgc \<noteq> [] \<longrightarrow> (\<exists>e. permuteMonoG pmgc grps g = Inl e))
   \<and> (wellFormed pmgc \<and> records pmgc \<noteq> []
        \<longrightarrow> permuteMonoG pmgc grps g = Inl NullPointerDereference)"
  using permuteMonoG_never_Some [of pmgc grps g c' g']
    permuteMonoG_null_dereference [of pmgc grps g]
  by blast

theorem permuteMonoG_returns_no_collection_witness:
  "records example_pmgc \<noteq> [] \<and> wellFormed example_pmgc
   \<and> permuteMonoG example_pmgc {|1, 2|} [0] = Inl NullPointerDereference"
proof -
  have h: "records example_pmgc \<noteq> []"
    by (simp add: example_pmgc_def)
  have w: "wellFormed example_pmgc"
    by code_simp
  from permuteMonoG_returns_no_collection [of example_pmgc "{|1, 2|}" "[0]"] h w
  show ?thesis by blast
qed

text \<open>
  A second operation that does not return on a well-formed input:
  \<^verbatim>\<open>permuteIntraGroupAlleles\<close> reads \<^verbatim>\<open>nbAllelesForInds[j][ind]\<close> beyond the end of the
  vector when a record of the group has a missing genotype at locus \<open>j\<close>, since only the
  genotypes that are not missing get an entry.
\<close>

lemma permuteIntraGroupAlleles_missing_genotype:
  "wellFormed example_diploid \<and> groupsKnown example_diploid
   \<and> map_sum id (\<lambda>(c, g). records c) (permuteIntraGroupAlleles True example_diploid {|1|} [0])
       = Inl IndexOutOfBounds
   \<and> map_sum id (\<lambda>(c, g). records c) (permuteIntraGroupAlleles False example_diploid {|1|} [0])
       = Inl IndexOutOfBounds"
  by code_simp

text \<open>
  Claim C2. Intra-group permutation is said to keep every genotype or allele inside its
  group and to pass each record of an unselected group through once. On the collection
  of three records in the groups 1, 2 and 3, with the groups 1 and 2 selected and
  identity shuffles, both operations give the record of group 3 twice (once per selected
  group) and give the record of group 2 the genotype taken from the record of group 1:
  the pools are not emptied between the groups.
\<close>

theorem permuteIntraGroup_mixes_groups:
  "map_sum id (\<lambda>(c, g). records c) (permuteIntraGroupMonoG True example_pmgc {|1, 2|} [0, 0])
     = Inr [([Some (MonoAlleleMonolocusGenotype 9)], 3),
            ([Some (MonoAlleleMonolocusGenotype 7)], 1),
            ([Some (MonoAlleleMonolocusGenotype 9)], 3),
            ([Some (MonoAlleleMonolocusGenotype 7)], 2)]
   \<and> map_sum id (\<lambda>(c, g). records c) (permuteIntraGroupMonoG False example_pmgc {|1, 2|} [0, 0])
     = Inr [([Some (MonoAlleleMonolocusGenotype 9)], 3),
            ([Some (MonoAlleleMonolocusGenotype 7)], 1),
            ([Some (MonoAlleleMonolocusGenotype 9)], 3),
            ([Some (MonoAlleleMonolocusGenotype 7)], 2)]
   \<and> map_sum id (\<lambda>(c, g). records c) (permuteIntraGroupAlleles True example_pmgc {|1, 2|} [0, 0])
     = Inr [([Some (MonoAlleleMonolocusGenotype 9)], 3),
            ([Some (MonoAlleleMonolocusGenotype 7)], 1),
            ([Some (MonoAlleleMonolocusGenotype 9)], 3),
            ([Some (MonoAlleleMonolocusGenotype 7)], 2)]
   \<and> map_sum id (\<lambda>(c, g). records c) (permuteIntraGroupAlleles False example_pmgc {|1, 2|} [0, 0])
     = Inr [([Some (MonoAlleleMonolocusGenotype 9)], 3),
            ([Some (MonoAlleleMonolocusGenotype 7)], 1),
            ([Some (MonoAlleleMonolocusGenotype 9)], 3),
            ([Some (MonoAlleleMonolocusGenotype 7)], 2)]"
  by code_simp

section \<open>Watterson's estimator\<close>

lemma a1_upto_sum: "a1_upto m = (\<Sum>i = 1..m. 1 / real i)"
  by (induction m) simp_all

lemma a1_upto_pos: "0 < m \<Longrightarrow> 0 < a1_upto m"
proof (induction m)
  case 0
  then show ?case by simp
next
  case (Suc m)
  have "0 \<le> a1_upto m"
    unfolding a1_upto_sum by (rule sum_nonneg) simp
  then show ?case by (simp add: add_nonneg_pos)
qed

text \<open>
  Claim C8. For an alignment of \<open>n \<ge> 2\<close> sequences, \<^verbatim>\<open>watterson75\<close> returns the number
  \<open>S\<close> of segregating sites (counted with the given \<open>gapflag\<close>) divided by \<open>a1\<close>, the sum
  of \<open>1/i\<close> for \<open>i\<close> from 1 to \<open>n - 1\<close>, which is positive; for four sequences with two
  segregating sites that is \<open>2 / (1 + 1/2 + 1/3)\<close>. The statement is about the functions
  as the header documents them, in real arithmetic.
\<close>

theorem watterson75_formula:
  assumes "2 \<le> getNumberOfSequences psc"
  shows "watterson75 psc gapflag
           = Inr (real (polymorphicSiteNumber psc gapflag)
                    / (\<Sum>i = 1..getNumberOfSequences psc - 1. 1 / real i))
         \<and> 0 < (\<Sum>i = 1..getNumberOfSequences psc - 1. 1 / real i)
         \<and> (getNumberOfSequences psc = 4 \<and> polymorphicSiteNumber psc gapflag = 2
              \<longrightarrow> watterson75 psc gapflag = Inr (2 / (1 + 1 / 2 + 1 / 3)))"
proof -
  let ?n = "getNumberOfSequences psc"
  have run: "watterson75 psc gapflag
           = Inr (real (polymorphicSiteNumber psc gapflag) / (\<Sum>i = 1..?n - 1. 1 / real i))"
    using assms by (simp add: watterson75_def Let_def getUsefullValues_a1_def a1_upto_sum)
  have pos: "0 < (\<Sum>i = 1..?n - 1. 1 / real i)"
    using a1_upto_pos [of "?n - 1"] assms unfolding a1_upto_sum by simp
  have four: "watterson75 psc gapflag = Inr (2 / (1 + 1 / 2 + 1 / 3))"
    if "?n = 4" "polymorphicSiteNumber psc gapflag = 2"
  proof -
    have "a1_upto (Suc (Suc (Suc 0))) = 1 + 1 / 2 + 1 / 3"
      by simp
    then have a: "getUsefullValues_a1 4 = 1 + 1 / 2 + 1 / 3"
      by (simp add: getUsefullValues_a1_def numeral_3_eq_3)
    have "watterson75 psc gapflag = Inr (real 2 / getUsefullValues_a1 4)"
      using that by (simp add: watterson75_def Let_def)
    then show ?thesis
      unfolding a by simp
  qed
  from run pos four show ?thesis by blast
qed

theorem watterson75_formula_witness:
  "2 \<le> getNumberOfSequences example_alignment
   \<and> getNumberOfSequences example_alignment = 4
   \<and> getNumberOfSites example_alignment = 5
   \<and> polymorphicSiteNumber example_alignment True = 2
   \<and> watterson75 example_alignment True = Inr (2 / (1 + 1 / 2 + 1 / 3))
   \<and> watterson75 example_alignment True = Inr (12 / 11)"
proof -
  have n: "getNumberOfSequences example_alignment = 4"
    by (simp add: getNumberOfSequences_def example_alignment_def)
  then have h: "2 \<le> getNumberOfSequences example_alignment"
    by simp
  have l: "getNumberOfSites example_alignment = 5"
    by (simp add: getNumberOfSites_def example_alignment_def)
  have s: "polymorphicSiteNumber example_alignment True = 2"
    by code_simp
  from watterson75_formula [OF h, of True] n s
  have w: "watterson75 example_alignment True = Inr (2 / (1 + 1 / 2 + 1 / 3))"
    by blast
  then have "watterson75 example_alignment True = Inr (12 / 11)"
    by simp
  with h n l s w show ?thesis by (intro conjI)
qed

end
